theory Spec2Isabelle
  imports Complex_Main "HOL-Library.Log_Nat"
begin

section \<open>Numbers, typed-array stores and the arithmetic primitives\<close>

text \<open>
  A JavaScript number is an IEEE 754 binary64 value: a rational with a significand of 53
  bits. Every \<open>+\<close>, \<open>-\<close>, \<open>*\<close> and \<open>/\<close> of the source is the exact operation followed
  by the rounding \<open>fl\<close> to the nearest such value, ties to the even significand, and a
  decimal literal denotes the \<open>fl\<close> of its decimal value. \<open>rhe\<close> rounds to the nearest
  integer, ties to even, and \<open>binade x\<close> is the exponent \<open>e\<close> with
  \<open>2 ^ e \<le> |x| < 2 ^ (e + 1)\<close>. The exponent range of binary64 (overflow, subnormal
  numbers) is not modelled: the filters compute with bytes and a handful of constants,
  far from both ends. The sign of a zero is not modelled either, and where the source
  could divide 0 by 0 the model has a branch of its own.

  The element store of a \<open>Uint8ClampedArray\<close> converts a number with ToUint8Clamp
  (clamp to 0..255, round to nearest, ties to even); \<open>Math.round\<close> rounds to nearest
  with ties upwards; \<open>%\<close> is the truncating remainder, whose sign is the sign of the
  dividend. These three, \<open>Math.abs\<close>, \<open>Math.max\<close> and \<open>Math.min\<close> are exact: their
  result is a binary64 value whenever their arguments are.
\<close>

definition rhe :: "rat \<Rightarrow> int" where
  "rhe y =
     (let f = \<lfloor>y\<rfloor> in
        if y - of_int f < 1 / 2 then f
        else if 1 / 2 < y - of_int f then f + 1
        else if even f then f else f + 1)"

definition binade :: "rat \<Rightarrow> int" where
  "binade x =
     (if 1 \<le> \<bar>x\<bar> then bitlen \<lfloor>\<bar>x\<bar>\<rfloor> - 1
      else - bitlen (\<lceil>1 / \<bar>x\<bar>\<rceil> - 1))"

definition fl :: "rat \<Rightarrow> rat" where
  "fl x =
     (if x = 0 then 0
      else let q = 2 powi (binade x - 52) in q * of_int (rhe (x / q)))"

definition toUint8Clamp :: "rat \<Rightarrow> nat" where
  "toUint8Clamp x =
     (if x \<le> 0 then 0
      else if 255 \<le> x then 255
      else let f = \<lfloor>x\<rfloor> in
        if of_int f + 1 / 2 < x then nat (f + 1)
        else if x < of_int f + 1 / 2 then nat f
        else if even f then nat f else nat (f + 1))"

definition js_round :: "rat \<Rightarrow> int" where
  "js_round x = \<lfloor>x + 1 / 2\<rfloor>"

definition js_trunc :: "rat \<Rightarrow> int" where
  "js_trunc q = (if 0 \<le> q then \<lfloor>q\<rfloor> else \<lceil>q\<rceil>)"

definition js_rem :: "rat \<Rightarrow> rat \<Rightarrow> rat" where
  "js_rem n d = n - d * of_int (js_trunc (n / d))"

section \<open>Pixels and image data\<close>

text \<open>
  \<open>ImageData.data\<close> holds four bytes per pixel. The model groups them into pixels; the
  loop \<open>for (i = 0; i < data.length; i += 4)\<close> of every filter is a map over the pixels.
  A byte is a natural number; every store goes through \<open>toUint8Clamp\<close> or writes 0 or
  255, and a property that needs the bytes of its input below 256 says so.
\<close>

datatype pixel = RGBA (red: nat) (green: nat) (blue: nat) (alpha: nat)

datatype channel = Red | Green | Blue

fun channelIndex :: "channel \<Rightarrow> nat" where
  "channelIndex Red = 0"
| "channelIndex Green = 1"
| "channelIndex Blue = 2"

text \<open>\<open>data[i + k]\<close> for the pixel that starts at \<open>i\<close>.\<close>

fun component :: "pixel \<Rightarrow> nat \<Rightarrow> nat" where
  "component (RGBA r g b a) k =
     (if k = 0 then r else if k = 1 then g else if k = 2 then b else a)"

section \<open>constants.js\<close>

text \<open>
  The nine coefficients are given by their decimal literals; the number a filter
  computes with is the \<open>fl\<close> of the literal.
\<close>

definition CANVAS_WIDTH :: nat where "CANVAS_WIDTH = 160"
definition CANVAS_HEIGHT :: nat where "CANVAS_HEIGHT = 120"
definition BLOCK_SIZE :: nat where "BLOCK_SIZE = 5"
definition BLUR_RADIUS :: nat where "BLUR_RADIUS = 10"

definition Y_R :: rat where "Y_R = 299 / 1000"
definition Y_G :: rat where "Y_G = 587 / 1000"
definition Y_B :: rat where "Y_B = 114 / 1000"
definition CB_R :: rat where "CB_R = - (168736 / 1000000)"
definition CB_G :: rat where "CB_G = - (331264 / 1000000)"
definition CB_B :: rat where "CB_B = 5 / 10"
definition CR_R :: rat where "CR_R = 5 / 10"
definition CR_G :: rat where "CR_G = - (418688 / 1000000)"
definition CR_B :: rat where "CR_B = - (81312 / 1000000)"

section \<open>The pixel filters\<close>

subsection \<open>ChannelThresholdFilter\<close>

text \<open>
  The threshold is \<open>parseInt(this.thresholdSlider.value)\<close>, read when the filter runs:
  it is an argument of the model.
\<close>

definition channelThreshold_pixel :: "channel \<Rightarrow> int \<Rightarrow> pixel \<Rightarrow> pixel" where
  "channelThreshold_pixel ch threshold p =
     (let v = (if int (component p (channelIndex ch)) > threshold then 255 else 0)
      in RGBA (if ch = Red then v else 0) (if ch = Green then v else 0)
              (if ch = Blue then v else 0) 255)"

definition ChannelThresholdFilter_processImageData ::
    "channel \<Rightarrow> int \<Rightarrow> pixel list \<Rightarrow> pixel list" where
  "ChannelThresholdFilter_processImageData ch threshold d =
     map (channelThreshold_pixel ch threshold) d"

subsection \<open>ChannelFilter\<close>

definition channel_pixel :: "channel \<Rightarrow> pixel \<Rightarrow> pixel" where
  "channel_pixel ch p =
     (let v = component p (channelIndex ch)
      in RGBA (if ch = Red then v else 0) (if ch = Green then v else 0)
              (if ch = Blue then v else 0) (alpha p))"

definition ChannelFilter_processImageData :: "channel \<Rightarrow> pixel list \<Rightarrow> pixel list" where
  "ChannelFilter_processImageData ch d = map (channel_pixel ch) d"

subsection \<open>GrayScaleFilter\<close>

definition grayScale_pixel :: "rat \<Rightarrow> pixel \<Rightarrow> pixel" where
  "grayScale_pixel brightnessIncrease p =
     (let gray = fl ((of_nat (red p) + of_nat (green p) + of_nat (blue p)) / 3);
          brightened = min (fl (gray * brightnessIncrease)) 255
      in RGBA (toUint8Clamp brightened) (toUint8Clamp brightened)
              (toUint8Clamp brightened) (alpha p))"

definition GrayScaleFilter_processImageData :: "rat \<Rightarrow> pixel list \<Rightarrow> pixel list" where
  "GrayScaleFilter_processImageData brightnessIncrease d =
     map (grayScale_pixel brightnessIncrease) d"

subsection \<open>WebcamRepeatFilter\<close>

definition WebcamRepeatFilter_processImageData :: "pixel list \<Rightarrow> pixel list" where
  "WebcamRepeatFilter_processImageData d = d"

subsection \<open>YCbCrFilter and YCbCrThresholdFilter\<close>

definition yCbCr_pixel :: "pixel \<Rightarrow> pixel" where
  "yCbCr_pixel p =
     (let r = of_nat (red p); g = of_nat (green p); b = of_nat (blue p);
          y = fl (fl (fl (fl Y_R * r) + fl (fl Y_G * g)) + fl (fl Y_B * b));
          cb = fl (fl (fl (128 + fl (fl CB_R * r)) + fl (fl CB_G * g)) + fl (fl CB_B * b));
          cr = fl (fl (fl (128 + fl (fl CR_R * r)) + fl (fl CR_G * g)) + fl (fl CR_B * b))
      in RGBA (toUint8Clamp y) (toUint8Clamp cb) (toUint8Clamp cr) (alpha p))"

definition YCbCrFilter_processImageData :: "pixel list \<Rightarrow> pixel list" where
  "YCbCrFilter_processImageData d = map yCbCr_pixel d"

definition yCbCrThreshold_pixel :: "int \<Rightarrow> pixel \<Rightarrow> pixel" where
  "yCbCrThreshold_pixel threshold p =
     (let y = red p;
          v = (if int y > threshold then 255 else 0)
      in RGBA v v v 255)"

definition YCbCrThresholdFilter_processImageData :: "int \<Rightarrow> pixel list \<Rightarrow> pixel list" where
  "YCbCrThresholdFilter_processImageData threshold d =
     map (yCbCrThreshold_pixel threshold) d"

subsection \<open>RgbHsvFilter\<close>

definition rgbHsv_hue :: "rat \<Rightarrow> rat \<Rightarrow> rat \<Rightarrow> rat" where
  "rgbHsv_hue r g b =
     (let mx = max r (max g b); mn = min r (min g b); diff = fl (mx - mn)
      in if diff \<noteq> 0 then
           (if mx = r then fl (60 * js_rem (fl (fl (g - b) / diff)) 6)
            else if mx = g then fl (60 * fl (fl (fl (b - r) / diff) + 2))
            else fl (60 * fl (fl (fl (r - g) / diff) + 4)))
         else 0)"

definition rgbHsv_pixel :: "pixel \<Rightarrow> pixel" where
  "rgbHsv_pixel p =
     (let r = fl (of_nat (red p) / 255); g = fl (of_nat (green p) / 255);
          b = fl (of_nat (blue p) / 255);
          mx = max r (max g b); mn = min r (min g b); diff = fl (mx - mn);
          h = rgbHsv_hue r g b;
          s = (if mx = 0 then 0 else fl (diff / mx));
          v = mx
      in RGBA (toUint8Clamp (fl (fl (h * 255) / 360))) (toUint8Clamp (fl (s * 255)))
              (toUint8Clamp (fl (v * 255))) (alpha p))"

definition RgbHsvFilter_processImageData :: "pixel list \<Rightarrow> pixel list" where
  "RgbHsvFilter_processImageData d = map rgbHsv_pixel d"

text \<open>The static decoder \<open>RgbHsvFilter.hsvToRgb\<close>; its result is the object \<open>{r, g, b}\<close>.\<close>

definition hsv_sector :: "rat \<Rightarrow> rat \<Rightarrow> rat \<Rightarrow> rat \<times> rat \<times> rat" where
  "hsv_sector h c x =
     (if 0 \<le> h \<and> h < 60 then (c, x, 0)
      else if 60 \<le> h \<and> h < 120 then (x, c, 0)
      else if 120 \<le> h \<and> h < 180 then (0, c, x)
      else if 180 \<le> h \<and> h < 240 then (0, x, c)
      else if 240 \<le> h \<and> h < 300 then (x, 0, c)
      else if 300 \<le> h \<and> h < 360 then (c, 0, x)
      else (0, 0, 0))"

definition hsvToRgb :: "rat \<Rightarrow> rat \<Rightarrow> rat \<Rightarrow> int \<times> int \<times> int" where
  "hsvToRgb h0 s0 v0 =
     (let h = fl (fl (h0 / 255) * 360); s = fl (s0 / 255); v = fl (v0 / 255);
          c = fl (v * s);
          x = fl (c * fl (1 - \<bar>fl (js_rem (fl (h / 60)) 2 - 1)\<bar>));
          m = fl (v - c)
      in case hsv_sector h c x of
           (r, g, b) \<Rightarrow>
             (js_round (fl (fl (r + m) * 255)), js_round (fl (fl (g + m) * 255)),
              js_round (fl (fl (b + m) * 255))))"

subsection \<open>RgbHsvThresholdFilter\<close>

definition rgbHsvThreshold_pixel :: "int \<Rightarrow> pixel \<Rightarrow> pixel" where
  "rgbHsvThreshold_pixel threshold p =
     (let h = red p; s = green p; v = blue p
      in if int v > threshold then
           (case hsvToRgb (of_nat h) (of_nat s) (of_nat v) of
              (r, g, b) \<Rightarrow>
                RGBA (toUint8Clamp (of_int r)) (toUint8Clamp (of_int g))
                     (toUint8Clamp (of_int b)) 255)
         else RGBA 0 0 0 255)"

definition RgbHsvThresholdFilter_processImageData :: "int \<Rightarrow> pixel list \<Rightarrow> pixel list" where
  "RgbHsvThresholdFilter_processImageData threshold d =
     map (rgbHsvThreshold_pixel threshold) d"

subsection \<open>Encoding followed by decoding\<close>

text \<open>
  The threshold filter reads the three bytes the encoder stored and hands them to the
  decoder; \<open>hsv_roundtrip\<close> is that composition on one pixel.
\<close>

definition hsv_roundtrip :: "pixel \<Rightarrow> int \<times> int \<times> int" where
  "hsv_roundtrip p =
     (let q = rgbHsv_pixel p
      in hsvToRgb (of_nat (red q)) (of_nat (green q)) (of_nat (blue q)))"

text \<open>
  The three channel profiles of the hue circle, used to describe both directions of the
  conversion: a channel is \<open>min + (max - min) * tent h\<close>. \<open>hue\<close> is the hue of the
  encoder in exact arithmetic, \<open>tri\<close> the triangle wave of the decoder, and \<open>eps\<close> the
  most that one rounding moves a number below \<open>2 ^ 17\<close>.
\<close>

definition eps :: rat where
  "eps = 1 / 2 ^ 36"

definition hue :: "rat \<Rightarrow> rat \<Rightarrow> rat \<Rightarrow> rat" where
  "hue r g b =
     (let mx = max r (max g b); mn = min r (min g b); diff = mx - mn
      in if diff \<noteq> 0 then
           (if mx = r then 60 * js_rem ((g - b) / diff) 6
            else if mx = g then 60 * ((b - r) / diff + 2)
            else 60 * ((r - g) / diff + 4))
         else 0)"

definition tri :: "rat \<Rightarrow> rat" where
  "tri q = 1 - \<bar>js_rem q 2 - 1\<bar>"

definition clamp01 :: "rat \<Rightarrow> rat" where
  "clamp01 y = max 0 (min 1 y)"

definition tentR :: "rat \<Rightarrow> rat" where "tentR h = clamp01 (\<bar>h / 60 - 3\<bar> - 1)"
definition tentG :: "rat \<Rightarrow> rat" where "tentG h = clamp01 (2 - \<bar>h / 60 - 2\<bar>)"
definition tentB :: "rat \<Rightarrow> rat" where "tentB h = clamp01 (2 - \<bar>h / 60 - 4\<bar>)"

section \<open>The canvas of the host\<close>

text \<open>
  The filters draw through the 2D canvas interface of the browser. The model keeps what
  the HTML standard says of the calls the code makes, for integer coordinates: a canvas
  is a bitmap with a width and a height; reading outside the bitmap gives transparent
  black; writing outside it is dropped. What the standard leaves to the host is a field
  of the record \<open>host\<close>: the blending of a partly transparent pixel, the resampling of
  an image drawn at another size, the face detector and the stroke of a rectangle.
\<close>

datatype error = Error string | DOMException string | TypeError

record canvas =
  cwidth :: nat
  cheight :: nat
  bitmap :: "int \<Rightarrow> int \<Rightarrow> pixel"

record imageData =
  iwidth :: nat
  iheight :: nat
  data :: "pixel list"

text \<open>
  The box of a detection, \<open>{x, y, width, height}\<close>, in frame coordinates: integers, the
  width and the height not negative.
\<close>

record box =
  box_x :: int
  box_y :: int
  box_width :: nat
  box_height :: nat

record host =
  blend :: "pixel \<Rightarrow> pixel \<Rightarrow> pixel"
  resample :: "canvas \<Rightarrow> nat \<Rightarrow> nat \<Rightarrow> canvas"
  detect :: "canvas \<Rightarrow> error + box list"
  stroke :: "box \<Rightarrow> canvas \<Rightarrow> int \<Rightarrow> int \<Rightarrow> pixel"

definition inside :: "canvas \<Rightarrow> int \<Rightarrow> int \<Rightarrow> bool" where
  "inside c x y \<longleftrightarrow> 0 \<le> x \<and> x < int (cwidth c) \<and> 0 \<le> y \<and> y < int (cheight c)"

definition in_rect :: "int \<Rightarrow> int \<Rightarrow> nat \<Rightarrow> nat \<Rightarrow> int \<Rightarrow> int \<Rightarrow> bool" where
  "in_rect rx ry w h x y \<longleftrightarrow> rx \<le> x \<and> x < rx + int w \<and> ry \<le> y \<and> y < ry + int h"

definition getPixel :: "canvas \<Rightarrow> int \<Rightarrow> int \<Rightarrow> pixel" where
  "getPixel c x y = (if inside c x y then bitmap c x y else RGBA 0 0 0 0)"

text \<open>What the host can see of a canvas: its size and the pixels inside it.\<close>

definition visible :: "canvas \<Rightarrow> canvas" where
  "visible c = c\<lparr>bitmap := getPixel c\<rparr>"

definition createCanvas :: "nat \<Rightarrow> nat \<Rightarrow> canvas" where
  "createCanvas w h = \<lparr>cwidth = w, cheight = h, bitmap = (\<lambda>x y. RGBA 0 0 0 0)\<rparr>"

text \<open>
  \<open>getImageData(sx, sy, sw, sh)\<close>: an empty rectangle raises IndexSizeError; the pixels
  come row by row, transparent black where the rectangle leaves the canvas.
\<close>

definition getImageData :: "canvas \<Rightarrow> int \<Rightarrow> int \<Rightarrow> nat \<Rightarrow> nat \<Rightarrow> error + imageData" where
  "getImageData c sx sy sw sh =
     (if sw = 0 \<or> sh = 0 then Inl (DOMException ''IndexSizeError'')
      else Inr \<lparr>iwidth = sw, iheight = sh,
                data = concat (map (\<lambda>j. map (\<lambda>i. getPixel c (sx + int i) (sy + int j)) [0..<sw])
                                   [0..<sh])\<rparr>)"

text \<open>
  \<open>putImageData(imageData, dx, dy)\<close> replaces, without blending, the pixels of the
  canvas that the image covers. The array of an \<open>ImageData\<close> always has
  \<open>width * height\<close> pixels.
\<close>

definition putImageData :: "canvas \<Rightarrow> imageData \<Rightarrow> int \<Rightarrow> int \<Rightarrow> canvas" where
  "putImageData c img dx dy =
     c\<lparr>bitmap := (\<lambda>x y.
          if inside c x y \<and> in_rect dx dy (iwidth img) (iheight img) x y
          then data img ! (nat (y - dy) * iwidth img + nat (x - dx))
          else bitmap c x y)\<rparr>"

definition source_over :: "host \<Rightarrow> pixel \<Rightarrow> pixel \<Rightarrow> pixel" where
  "source_over hst s d =
     (if alpha s = 255 then s else if alpha s = 0 then d else blend hst s d)"

text \<open>
  Drawing the rectangle \<open>(sx, sy, w, h)\<close> of an image at \<open>(dx, dy)\<close> in the same size:
  the part of the rectangle outside the image is clipped away, and so is the part of
  the destination outside the canvas.
\<close>

definition composite ::
    "host \<Rightarrow> canvas \<Rightarrow> canvas \<Rightarrow> int \<Rightarrow> int \<Rightarrow> int \<Rightarrow> int \<Rightarrow> nat \<Rightarrow> nat \<Rightarrow> canvas" where
  "composite hst c img sx sy dx dy w h =
     c\<lparr>bitmap := (\<lambda>x y.
          if inside c x y \<and> in_rect dx dy w h x y \<and> inside img (sx + (x - dx)) (sy + (y - dy))
          then source_over hst (bitmap img (sx + (x - dx)) (sy + (y - dy))) (bitmap c x y)
          else bitmap c x y)\<rparr>"

text \<open>
  \<open>drawImage(canvas, sx, sy, w, h, dx, dy, w, h)\<close>: a canvas without width or height
  is not usable and raises InvalidStateError; an empty source rectangle draws nothing.
\<close>

definition drawImage_rect ::
    "host \<Rightarrow> canvas \<Rightarrow> canvas \<Rightarrow> int \<Rightarrow> int \<Rightarrow> int \<Rightarrow> int \<Rightarrow> nat \<Rightarrow> nat
      \<Rightarrow> canvas \<times> error option" where
  "drawImage_rect hst c img sx sy dx dy w h =
     (if cwidth img = 0 \<or> cheight img = 0 then (c, Some (DOMException ''InvalidStateError''))
      else if w = 0 \<or> h = 0 then (c, None)
      else (composite hst c img sx sy dx dy w h, None))"

definition clearRect :: "canvas \<Rightarrow> int \<Rightarrow> int \<Rightarrow> nat \<Rightarrow> nat \<Rightarrow> canvas" where
  "clearRect c rx ry w h =
     c\<lparr>bitmap := (\<lambda>x y. if inside c x y \<and> in_rect rx ry w h x y then RGBA 0 0 0 0
                         else bitmap c x y)\<rparr>"

definition fillRect :: "host \<Rightarrow> canvas \<Rightarrow> pixel \<Rightarrow> int \<Rightarrow> int \<Rightarrow> nat \<Rightarrow> nat \<Rightarrow> canvas" where
  "fillRect hst c fillStyle rx ry w h =
     c\<lparr>bitmap := (\<lambda>x y. if inside c x y \<and> in_rect rx ry w h x y
                         then source_over hst fillStyle (bitmap c x y)
                         else bitmap c x y)\<rparr>"

text \<open>The colour \<open>rgb(r, g, b)\<close> of a fill style: each component clipped to 0..255, opaque.\<close>

definition css_rgb :: "int \<Rightarrow> int \<Rightarrow> int \<Rightarrow> pixel" where
  "css_rgb r g b =
     RGBA (nat (max 0 (min 255 r))) (nat (max 0 (min 255 g))) (nat (max 0 (min 255 b))) 255"

section \<open>MaskFaceFilter\<close>

text \<open>
  An effect reads the region from \<open>sourceCanvas\<close> and draws on the filter's own canvas;
  the two may be one canvas, and every read comes before the first write. The functions
  return the destination canvas and the exception raised, if any.
\<close>

definition grayscaleMask_pixel :: "pixel \<Rightarrow> pixel" where
  "grayscaleMask_pixel p =
     (let gray = fl ((of_nat (red p) + of_nat (green p) + of_nat (blue p)) / 3)
      in RGBA (toUint8Clamp gray) (toUint8Clamp gray) (toUint8Clamp gray) (alpha p))"

definition getRegionImageData :: "box \<Rightarrow> canvas \<Rightarrow> error + imageData" where
  "getRegionImageData region sourceCanvas =
     getImageData sourceCanvas (box_x region) (box_y region) (box_width region) (box_height region)"

definition putRegionImageData :: "canvas \<Rightarrow> imageData \<Rightarrow> box \<Rightarrow> canvas" where
  "putRegionImageData c img region = putImageData c img (box_x region) (box_y region)"

definition applyGrayscaleMask :: "box \<Rightarrow> canvas \<Rightarrow> canvas \<Rightarrow> canvas \<times> error option" where
  "applyGrayscaleMask faceRegion sourceCanvas c =
     (case getRegionImageData faceRegion sourceCanvas of
        Inl e \<Rightarrow> (c, Some e)
      | Inr img \<Rightarrow>
          (putRegionImageData c (img\<lparr>data := map grayscaleMask_pixel (data img)\<rparr>) faceRegion,
           None))"

definition yCbCrMask_pixel :: "pixel \<Rightarrow> pixel" where
  "yCbCrMask_pixel p =
     (let r = of_nat (red p); g = of_nat (green p); b = of_nat (blue p);
          y = fl (fl (fl (fl (299 / 1000) * r) + fl (fl (587 / 1000) * g))
                + fl (fl (114 / 1000) * b));
          cb = fl (fl (fl (128 - fl (fl (168736 / 1000000) * r)) - fl (fl (331264 / 1000000) * g))
                 + fl (fl (5 / 10) * b));
          cr = fl (fl (fl (128 + fl (fl (5 / 10) * r)) - fl (fl (418688 / 1000000) * g))
                 - fl (fl (81312 / 1000000) * b))
      in RGBA (toUint8Clamp y) (toUint8Clamp cb) (toUint8Clamp cr) (alpha p))"

definition applyYCbCrMask :: "box \<Rightarrow> canvas \<Rightarrow> canvas \<Rightarrow> canvas \<times> error option" where
  "applyYCbCrMask faceRegion sourceCanvas c =
     (case getRegionImageData faceRegion sourceCanvas of
        Inl e \<Rightarrow> (c, Some e)
      | Inr img \<Rightarrow>
          (putRegionImageData c (img\<lparr>data := map yCbCrMask_pixel (data img)\<rparr>) faceRegion,
           None))"

text \<open>
  \<open>applyBlurMask\<close> sets the filter of the destination context to a blur and back to
  \<open>none\<close> before it draws on that context; the temporary context never has a filter.
  No draw is filtered, so the filter attribute is not part of the canvas here.
\<close>

definition applyBlurMask :: "host \<Rightarrow> box \<Rightarrow> canvas \<Rightarrow> canvas \<Rightarrow> canvas \<times> error option" where
  "applyBlurMask hst faceRegion sourceCanvas c =
     (let tempCanvas = createCanvas (box_width faceRegion) (box_height faceRegion)
      in case drawImage_rect hst tempCanvas sourceCanvas (box_x faceRegion) (box_y faceRegion) 0 0
                (box_width faceRegion) (box_height faceRegion) of
           (_, Some e) \<Rightarrow> (c, Some e)
         | (tempCanvas', None) \<Rightarrow>
             drawImage_rect hst
               (clearRect c (box_x faceRegion) (box_y faceRegion)
                  (box_width faceRegion) (box_height faceRegion))
               tempCanvas' 0 0 (box_x faceRegion) (box_y faceRegion)
               (box_width faceRegion) (box_height faceRegion))"

text \<open>
  \<open>calculateAverageColor\<close>: with no pixel the three quotients are \<open>0 / 0\<close>, not a
  number, and the result is \<open>None\<close>; the fill style then keeps its value.
\<close>

definition calculateAverageColor :: "pixel list \<Rightarrow> (int \<times> int \<times> int) option" where
  "calculateAverageColor d =
     (let sumR = sum_list (map red d); sumG = sum_list (map green d);
          sumB = sum_list (map blue d); count = length d
      in if count = 0 then None
         else Some (js_round (fl (of_nat sumR / of_nat count)),
                    js_round (fl (of_nat sumG / of_nat count)),
                    js_round (fl (of_nat sumB / of_nat count))))"

definition set_fillStyle :: "pixel \<Rightarrow> (int \<times> int \<times> int) option \<Rightarrow> pixel" where
  "set_fillStyle old avgColor =
     (case avgColor of None \<Rightarrow> old | Some (r, g, b) \<Rightarrow> css_rgb r g b)"

text \<open>
  The two loops over the blocks. The state of the temporary context is its canvas and
  its fill style.
\<close>

function pixelate_row ::
    "host \<Rightarrow> nat \<Rightarrow> nat \<Rightarrow> nat \<Rightarrow> nat \<Rightarrow> canvas \<times> pixel \<Rightarrow> (canvas \<times> pixel) \<times> error option" where
  "pixelate_row hst w h y x (tempCanvas, fillStyle) =
     (if x < w then
        (let blockWidth = min BLOCK_SIZE (w - x);
             blockHeight = min BLOCK_SIZE (h - y)
         in case getImageData tempCanvas (int x) (int y) blockWidth blockHeight of
              Inl e \<Rightarrow> ((tempCanvas, fillStyle), Some e)
            | Inr blockData \<Rightarrow>
                (let fillStyle' = set_fillStyle fillStyle (calculateAverageColor (data blockData))
                 in pixelate_row hst w h y (x + BLOCK_SIZE)
                      (fillRect hst tempCanvas fillStyle' (int x) (int y) BLOCK_SIZE BLOCK_SIZE,
                       fillStyle')))
      else ((tempCanvas, fillStyle), None))"
  by pat_completeness auto
termination
  by (relation "measure (\<lambda>(hst, w, h, y, x, s). w - x)") (auto simp: BLOCK_SIZE_def)

function pixelate_rows ::
    "host \<Rightarrow> nat \<Rightarrow> nat \<Rightarrow> nat \<Rightarrow> canvas \<times> pixel \<Rightarrow> (canvas \<times> pixel) \<times> error option" where
  "pixelate_rows hst w h y s =
     (if y < h then
        (case pixelate_row hst w h y 0 s of
           (s', Some e) \<Rightarrow> (s', Some e)
         | (s', None) \<Rightarrow> pixelate_rows hst w h (y + BLOCK_SIZE) s')
      else (s, None))"
  by pat_completeness auto
termination
  by (relation "measure (\<lambda>(hst, w, h, y, s). h - y)") (auto simp: BLOCK_SIZE_def)

definition applyPixelateMask :: "host \<Rightarrow> box \<Rightarrow> canvas \<Rightarrow> canvas \<Rightarrow> canvas \<times> error option" where
  "applyPixelateMask hst faceRegion sourceCanvas c =
     (let tempCanvas = createCanvas (box_width faceRegion) (box_height faceRegion)
      in case drawImage_rect hst tempCanvas sourceCanvas (box_x faceRegion) (box_y faceRegion) 0 0
                (box_width faceRegion) (box_height faceRegion) of
           (_, Some e) \<Rightarrow> (c, Some e)
         | (tempCanvas', None) \<Rightarrow>
             (case pixelate_rows hst (box_width faceRegion) (box_height faceRegion) 0
                     (tempCanvas', RGBA 0 0 0 255) of
                (_, Some e) \<Rightarrow> (c, Some e)
              | ((tempCanvas'', _), None) \<Rightarrow>
                  drawImage_rect hst c tempCanvas'' 0 0 (box_x faceRegion) (box_y faceRegion)
                    (box_width faceRegion) (box_height faceRegion)))"

text \<open>
  \<open>applyEffect\<close> reads \<open>this.effectHandlers[effect]\<close> and calls what it finds, if that
  is truthy. \<open>effectHandlers\<close> is an object literal with four own properties, so every
  other name is looked up on \<open>Object.prototype\<close>, and the module is strict code, so the
  call \<open>handler(faceRegion, sourceCanvas)\<close> passes no \<open>this\<close>. For the names of
  \<open>Object_prototype_raising\<close> the call raises a TypeError: \<open>__proto__\<close> gives the
  prototype object, which is not a function, and the others are functions that turn
  \<open>this\<close> into an object before they return (\<open>isPrototypeOf\<close> because its argument
  \<open>faceRegion\<close> is an object). \<open>constructor\<close> and \<open>toString\<close> return a value and touch
  no canvas, and for a name that is not found the \<open>if\<close> skips the call.
\<close>

definition Object_prototype_raising :: "string list" where
  "Object_prototype_raising =
     [''__proto__'', ''__defineGetter__'', ''__defineSetter__'', ''__lookupGetter__'',
      ''__lookupSetter__'', ''hasOwnProperty'', ''isPrototypeOf'', ''propertyIsEnumerable'',
      ''toLocaleString'', ''valueOf'']"

definition applyEffect :: "host \<Rightarrow> string \<Rightarrow> box \<Rightarrow> canvas \<Rightarrow> canvas \<Rightarrow> canvas \<times> error option" where
  "applyEffect hst effect faceRegion sourceCanvas c =
     (if effect = ''grayscale'' then applyGrayscaleMask faceRegion sourceCanvas c
      else if effect = ''blur'' then applyBlurMask hst faceRegion sourceCanvas c
      else if effect = ''pixelate'' then applyPixelateMask hst faceRegion sourceCanvas c
      else if effect = ''ycbcr'' then applyYCbCrMask faceRegion sourceCanvas c
      else if effect \<in> set Object_prototype_raising then (c, Some TypeError)
      else (c, None))"

section \<open>Notions used to state the properties of the effects\<close>

text \<open>
  \<open>region_rect\<close> is the set of points of a region, \<open>region_outside\<close> says that the region
  misses the canvas altogether, \<open>same_outside R c c'\<close> that \<open>c'\<close> differs from \<open>c\<close> at
  most at the points of \<open>R\<close> inside the canvas, and \<open>uniform_canvas\<close> that a canvas of
  the given size shows one colour. \<open>plain_host\<close> is a host used in the examples.
\<close>

definition region_rect :: "box \<Rightarrow> int \<Rightarrow> int \<Rightarrow> bool" where
  "region_rect region =
     in_rect (box_x region) (box_y region) (box_width region) (box_height region)"

definition region_outside :: "box \<Rightarrow> canvas \<Rightarrow> bool" where
  "region_outside region c \<longleftrightarrow>
     int (cwidth c) \<le> box_x region \<or> int (cheight c) \<le> box_y region
     \<or> box_x region + int (box_width region) \<le> 0
     \<or> box_y region + int (box_height region) \<le> 0"

definition same_outside :: "(int \<Rightarrow> int \<Rightarrow> bool) \<Rightarrow> canvas \<Rightarrow> canvas \<Rightarrow> bool" where
  "same_outside R c c' \<longleftrightarrow>
     cwidth c' = cwidth c \<and> cheight c' = cheight c
     \<and> (\<forall>x y. \<not> (inside c x y \<and> R x y) \<longrightarrow> bitmap c' x y = bitmap c x y)"

definition uniform_canvas :: "pixel \<Rightarrow> nat \<Rightarrow> nat \<Rightarrow> canvas \<Rightarrow> bool" where
  "uniform_canvas P w h t \<longleftrightarrow>
     cwidth t = w \<and> cheight t = h \<and> (\<forall>x y. inside t x y \<longrightarrow> bitmap t x y = P)"

definition plain_host :: host where
  "plain_host = \<lparr>blend = (\<lambda>s d. s), resample = (\<lambda>c w h. c), detect = (\<lambda>c. Inr []),
                  stroke = (\<lambda>b c. bitmap c)\<rparr>"

section \<open>ImageFilter and the application\<close>

text \<open>
  The canvases and the threshold sliders of the page, by their element ids.
\<close>

datatype canvas_id =
    C_grayscale | C_webcamRepeat | C_redChannel | C_greenChannel | C_blueChannel
  | C_redThresholdCanvas | C_greenThresholdCanvas | C_blueThresholdCanvas
  | C_colorSpace2 | C_thresholdSpace2 | C_colorSpace1 | C_thresholdSpace1 | C_faceDetection

datatype slider_id =
    S_redThreshold | S_greenThreshold | S_blueThreshold | S_colorSpace2Threshold
  | S_colorSpace1Threshold

text \<open>
  The classes that extend \<open>ImageFilter\<close> and keep its \<open>process\<close>, with the arguments of
  their constructors. \<open>ImageFilter\<close> is the base class itself; \<open>MaskFaceFilter\<close> inherits
  its \<open>processImageData\<close>. \<open>FaceDetectionFilter\<close> has a \<open>process\<close> of its own.
\<close>

datatype imageFilter =
    ImageFilter canvas_id
  | GrayScaleFilter canvas_id rat
  | WebcamRepeatFilter canvas_id
  | ChannelFilter canvas_id channel
  | ChannelThresholdFilter canvas_id channel slider_id
  | YCbCrFilter canvas_id
  | YCbCrThresholdFilter canvas_id slider_id
  | RgbHsvFilter canvas_id
  | RgbHsvThresholdFilter canvas_id slider_id
  | MaskFaceFilter canvas_id

datatype faceDetectionFilter = FaceDetectionFilter canvas_id

fun canvas_of :: "imageFilter \<Rightarrow> canvas_id" where
  "canvas_of (ImageFilter c) = c"
| "canvas_of (GrayScaleFilter c _) = c"
| "canvas_of (WebcamRepeatFilter c) = c"
| "canvas_of (ChannelFilter c _) = c"
| "canvas_of (ChannelThresholdFilter c _ _) = c"
| "canvas_of (YCbCrFilter c) = c"
| "canvas_of (YCbCrThresholdFilter c _) = c"
| "canvas_of (RgbHsvFilter c) = c"
| "canvas_of (RgbHsvThresholdFilter c _) = c"
| "canvas_of (MaskFaceFilter c) = c"

text \<open>
  \<open>processImageData\<close>, dispatched on the class; a threshold filter reads its slider when
  it runs.
\<close>

fun processImageData :: "(slider_id \<Rightarrow> int) \<Rightarrow> imageFilter \<Rightarrow> pixel list \<Rightarrow> error + pixel list" where
  "processImageData sl (ImageFilter _) d =
     Inl (Error ''processImageData must be implemented by child classes'')"
| "processImageData sl (GrayScaleFilter _ brightnessIncrease) d =
     Inr (GrayScaleFilter_processImageData brightnessIncrease d)"
| "processImageData sl (WebcamRepeatFilter _) d = Inr (WebcamRepeatFilter_processImageData d)"
| "processImageData sl (ChannelFilter _ ch) d = Inr (ChannelFilter_processImageData ch d)"
| "processImageData sl (ChannelThresholdFilter _ ch s) d =
     Inr (ChannelThresholdFilter_processImageData ch (sl s) d)"
| "processImageData sl (YCbCrFilter _) d = Inr (YCbCrFilter_processImageData d)"
| "processImageData sl (YCbCrThresholdFilter _ s) d =
     Inr (YCbCrThresholdFilter_processImageData (sl s) d)"
| "processImageData sl (RgbHsvFilter _) d = Inr (RgbHsvFilter_processImageData d)"
| "processImageData sl (RgbHsvThresholdFilter _ s) d =
     Inr (RgbHsvThresholdFilter_processImageData (sl s) d)"
| "processImageData sl (MaskFaceFilter _) d =
     Inl (Error ''processImageData must be implemented by child classes'')"

record filters =
  grayscale :: imageFilter
  webcamRepeat :: imageFilter
  redChannel :: imageFilter
  greenChannel :: imageFilter
  blueChannel :: imageFilter
  redThreshold :: imageFilter
  greenThreshold :: imageFilter
  blueThreshold :: imageFilter
  ycbcr :: imageFilter
  ycbcrThreshold :: imageFilter
  rgbHsv :: imageFilter
  rgbHsvThreshold :: imageFilter
  faceDetection :: faceDetectionFilter
  maskFace :: imageFilter

definition initializeFilters :: filters where
  "initializeFilters =
     \<lparr>grayscale = GrayScaleFilter C_grayscale (fl (12 / 10)),
      webcamRepeat = WebcamRepeatFilter C_webcamRepeat,
      redChannel = ChannelFilter C_redChannel Red,
      greenChannel = ChannelFilter C_greenChannel Green,
      blueChannel = ChannelFilter C_blueChannel Blue,
      redThreshold = ChannelThresholdFilter C_redThresholdCanvas Red S_redThreshold,
      greenThreshold = ChannelThresholdFilter C_greenThresholdCanvas Green S_greenThreshold,
      blueThreshold = ChannelThresholdFilter C_blueThresholdCanvas Blue S_blueThreshold,
      ycbcr = YCbCrFilter C_colorSpace2,
      ycbcrThreshold = YCbCrThresholdFilter C_thresholdSpace2 S_colorSpace2Threshold,
      rgbHsv = RgbHsvFilter C_colorSpace1,
      rgbHsvThreshold = RgbHsvThresholdFilter C_thresholdSpace1 S_colorSpace1Threshold,
      faceDetection = FaceDetectionFilter C_faceDetection,
      maskFace = MaskFaceFilter C_faceDetection\<rparr>"

text \<open>
  The state of the application: the current frame of the video element (\<open>None\<close> while the
  camera delivers nothing), the canvases and sliders of the page, the filters, the
  detections kept by the face detection filter, and what was written to the console and
  shown in alerts.
\<close>

record app =
  webcamVideo :: "canvas option"
  dom_canvas :: "canvas_id \<Rightarrow> canvas"
  sliders :: "slider_id \<Rightarrow> int"
  filters :: filters
  detections :: "box list"
  console :: "string list"
  alerts :: "string list"

datatype image_source = VideoSource "canvas option" | CanvasSource canvas

text \<open>
  \<open>drawImage(source, 0, 0, CANVAS_WIDTH, CANVAS_HEIGHT)\<close>: a video without a frame draws
  nothing, a canvas without width or height raises; an image of another size is
  resampled by the host.
\<close>

definition draw_scaled :: "host \<Rightarrow> canvas \<Rightarrow> canvas \<Rightarrow> canvas" where
  "draw_scaled hst c img =
     composite hst c
       (if cwidth img = CANVAS_WIDTH \<and> cheight img = CANVAS_HEIGHT then img
        else resample hst (visible img) CANVAS_WIDTH CANVAS_HEIGHT)
       0 0 0 0 CANVAS_WIDTH CANVAS_HEIGHT"

definition drawImage :: "host \<Rightarrow> canvas \<Rightarrow> image_source \<Rightarrow> canvas \<times> error option" where
  "drawImage hst c source =
     (case source of
        VideoSource None \<Rightarrow> (c, None)
      | VideoSource (Some frame) \<Rightarrow> (draw_scaled hst c frame, None)
      | CanvasSource img \<Rightarrow>
          if cwidth img = 0 \<or> cheight img = 0
          then (c, Some (DOMException ''InvalidStateError''))
          else (draw_scaled hst c img, None))"

definition set_canvas :: "canvas_id \<Rightarrow> canvas \<Rightarrow> app \<Rightarrow> app" where
  "set_canvas cid c st = st\<lparr>dom_canvas := (dom_canvas st)(cid := c)\<rparr>"

text \<open>
  \<open>ImageFilter.process\<close>: draw the source, get the image data, process it, put it back.
  The result is the state when the call ends and the exception, if one was raised.
\<close>

definition ImageFilter_process ::
    "host \<Rightarrow> imageFilter \<Rightarrow> image_source \<Rightarrow> app \<Rightarrow> app \<times> error option" where
  "ImageFilter_process hst f source st =
     (case drawImage hst (dom_canvas st (canvas_of f)) source of
        (c, Some e) \<Rightarrow> (set_canvas (canvas_of f) c st, Some e)
      | (c, None) \<Rightarrow>
          (case getImageData c 0 0 CANVAS_WIDTH CANVAS_HEIGHT of
             Inl e \<Rightarrow> (set_canvas (canvas_of f) c st, Some e)
           | Inr imageData \<Rightarrow>
               (case processImageData (sliders st) f (data imageData) of
                  Inl e \<Rightarrow> (set_canvas (canvas_of f) c st, Some e)
                | Inr d \<Rightarrow>
                    (set_canvas (canvas_of f) (putImageData c (imageData\<lparr>data := d\<rparr>) 0 0) st,
                     None))))"

text \<open>
  \<open>strokeRect\<close> with the green 2px line is left to the host, which sees and changes the
  pixels inside the canvas.
\<close>

definition strokeRect :: "host \<Rightarrow> box \<Rightarrow> canvas \<Rightarrow> canvas" where
  "strokeRect hst b c =
     c\<lparr>bitmap := (\<lambda>x y. if inside c x y then stroke hst b (visible c) x y else bitmap c x y)\<rparr>"

definition drawDetections :: "host \<Rightarrow> box list \<Rightarrow> canvas \<Rightarrow> canvas" where
  "drawDetections hst ds c = fold (strokeRect hst) ds c"

text \<open>
  \<open>FaceDetectionFilter.process\<close>: draw the source, await the detector, draw the boxes.
  The detector may reject.
\<close>

fun FaceDetectionFilter_process ::
    "host \<Rightarrow> faceDetectionFilter \<Rightarrow> image_source \<Rightarrow> app \<Rightarrow> app \<times> error option" where
  "FaceDetectionFilter_process hst (FaceDetectionFilter cid) source st =
     (case drawImage hst (dom_canvas st cid) source of
        (c, Some e) \<Rightarrow> (set_canvas cid c st, Some e)
      | (c, None) \<Rightarrow>
          (case detect hst (visible c) of
             Inl e \<Rightarrow> (set_canvas cid c st, Some e)
           | Inr ds \<Rightarrow>
               (set_canvas cid (drawDetections hst ds c) (st\<lparr>detections := ds\<rparr>), None)))"

text \<open>Statements in sequence: the first exception ends the sequence.\<close>

fun run_steps :: "(app \<Rightarrow> app \<times> error option) list \<Rightarrow> app \<Rightarrow> app \<times> error option" where
  "run_steps [] st = (st, None)"
| "run_steps (f # fs) st =
     (case f st of (st', Some e) \<Rightarrow> (st', Some e) | (st', None) \<Rightarrow> run_steps fs st')"

text \<open>The body of the \<open>try\<close> block of \<open>processImage\<close>.\<close>

definition processImage_steps :: "host \<Rightarrow> (app \<Rightarrow> app \<times> error option) list" where
  "processImage_steps hst =
     [\<lambda>st. ImageFilter_process hst (webcamRepeat (filters st)) (VideoSource (webcamVideo st)) st,
      \<lambda>st. ImageFilter_process hst (grayscale (filters st)) (VideoSource (webcamVideo st)) st,
      \<lambda>st. ImageFilter_process hst (redChannel (filters st)) (VideoSource (webcamVideo st)) st,
      \<lambda>st. ImageFilter_process hst (greenChannel (filters st)) (VideoSource (webcamVideo st)) st,
      \<lambda>st. ImageFilter_process hst (blueChannel (filters st)) (VideoSource (webcamVideo st)) st,
      \<lambda>st. ImageFilter_process hst (redThreshold (filters st)) (VideoSource (webcamVideo st)) st,
      \<lambda>st. ImageFilter_process hst (greenThreshold (filters st)) (VideoSource (webcamVideo st)) st,
      \<lambda>st. ImageFilter_process hst (blueThreshold (filters st)) (VideoSource (webcamVideo st)) st,
      \<lambda>st. ImageFilter_process hst (rgbHsv (filters st)) (VideoSource (webcamVideo st)) st,
      \<lambda>st. ImageFilter_process hst (rgbHsvThreshold (filters st))
              (CanvasSource (dom_canvas st (canvas_of (rgbHsv (filters st))))) st,
      \<lambda>st. ImageFilter_process hst (ycbcr (filters st)) (VideoSource (webcamVideo st)) st,
      \<lambda>st. ImageFilter_process hst (ycbcrThreshold (filters st))
              (CanvasSource (dom_canvas st (canvas_of (ycbcr (filters st))))) st,
      \<lambda>st. FaceDetectionFilter_process hst (faceDetection (filters st))
              (CanvasSource (dom_canvas st (canvas_of (webcamRepeat (filters st))))) st]"

text \<open>\<open>processImage\<close>: the \<open>catch\<close> block writes to the console and shows an alert.\<close>

definition processImage :: "host \<Rightarrow> app \<Rightarrow> app" where
  "processImage hst st =
     (case run_steps (processImage_steps hst) st of
        (st', Some e) \<Rightarrow>
          st'\<lparr>console := console st' @ [''Error processing image:''],
              alerts := alerts st' @ [''Error processing image. Please try again.'']\<rparr>
      | (st', None) \<Rightarrow> st')"

section \<open>Notions used to state the properties of the cycle\<close>

text \<open>
  An image is good for a cycle when it has the size of the canvases and is opaque, as a
  video frame is. A state is ready for a cycle on a frame and slider values when its
  filters are those of \<open>initializeFilters\<close>, the video shows that frame, the sliders
  have those values, and every canvas has the size \<open>initializeCanvas\<close> gave it.
\<close>

definition good_image :: "canvas \<Rightarrow> bool" where
  "good_image img \<longleftrightarrow>
     cwidth img = CANVAS_WIDTH \<and> cheight img = CANVAS_HEIGHT
     \<and> (\<forall>x y. inside img x y \<longrightarrow> alpha (bitmap img x y) = 255)"

definition cycle_ready :: "canvas \<Rightarrow> (slider_id \<Rightarrow> int) \<Rightarrow> app \<Rightarrow> bool" where
  "cycle_ready frame sl st \<longleftrightarrow>
     filters st = initializeFilters \<and> webcamVideo st = Some frame \<and> sliders st = sl
     \<and> good_image frame
     \<and> (\<forall>cid. cwidth (dom_canvas st cid) = CANVAS_WIDTH
              \<and> cheight (dom_canvas st cid) = CANVAS_HEIGHT)"

text \<open>
  What a cycle leaves on each canvas, written from the frame and the sliders alone:
  \<open>frame_data\<close> is the pixel array of a whole canvas, \<open>filter_output\<close> the canvas that
  shows a pixel array, \<open>out\<close> the output of one filter on an image, \<open>face_output\<close> the
  face detection canvas (with the boxes, or without when the detector rejects), and
  \<open>face_error\<close> the exception of the cycle, if any.
\<close>

definition frame_data :: "canvas \<Rightarrow> pixel list" where
  "frame_data c =
     concat (map (\<lambda>j. map (\<lambda>i. getPixel c (0 + int i) (0 + int j)) [0..<CANVAS_WIDTH])
                 [0..<CANVAS_HEIGHT])"

definition filter_output :: "pixel list \<Rightarrow> canvas" where
  "filter_output d =
     \<lparr>cwidth = CANVAS_WIDTH, cheight = CANVAS_HEIGHT,
      bitmap = (\<lambda>x y. if 0 \<le> x \<and> x < int CANVAS_WIDTH \<and> 0 \<le> y \<and> y < int CANVAS_HEIGHT
                       then d ! (nat y * CANVAS_WIDTH + nat x) else RGBA 0 0 0 0)\<rparr>"

definition implemented :: "imageFilter \<Rightarrow> bool" where
  "implemented f \<longleftrightarrow> (case f of ImageFilter _ \<Rightarrow> False | MaskFaceFilter _ \<Rightarrow> False | _ \<Rightarrow> True)"

definition processed :: "(slider_id \<Rightarrow> int) \<Rightarrow> imageFilter \<Rightarrow> pixel list \<Rightarrow> pixel list" where
  "processed sl f d = (case processImageData sl f d of Inl _ \<Rightarrow> d | Inr d' \<Rightarrow> d')"

definition out :: "(slider_id \<Rightarrow> int) \<Rightarrow> imageFilter \<Rightarrow> canvas \<Rightarrow> canvas" where
  "out sl f img = filter_output (processed sl f (frame_data img))"

definition face_output :: "host \<Rightarrow> canvas \<Rightarrow> canvas" where
  "face_output hst img =
     (case detect hst (visible img) of
        Inl _ \<Rightarrow> visible img
      | Inr ds \<Rightarrow> drawDetections hst ds (visible img))"

definition face_error :: "host \<Rightarrow> canvas \<Rightarrow> (slider_id \<Rightarrow> int) \<Rightarrow> error option" where
  "face_error hst frame sl =
     (case detect hst (out sl (webcamRepeat initializeFilters) frame) of
        Inl e \<Rightarrow> Some e | Inr ds \<Rightarrow> None)"

fun expected :: "host \<Rightarrow> canvas \<Rightarrow> (slider_id \<Rightarrow> int) \<Rightarrow> canvas_id \<Rightarrow> canvas" where
  "expected hst frame sl C_webcamRepeat = out sl (webcamRepeat initializeFilters) frame"
| "expected hst frame sl C_grayscale = out sl (grayscale initializeFilters) frame"
| "expected hst frame sl C_redChannel = out sl (redChannel initializeFilters) frame"
| "expected hst frame sl C_greenChannel = out sl (greenChannel initializeFilters) frame"
| "expected hst frame sl C_blueChannel = out sl (blueChannel initializeFilters) frame"
| "expected hst frame sl C_redThresholdCanvas = out sl (redThreshold initializeFilters) frame"
| "expected hst frame sl C_greenThresholdCanvas = out sl (greenThreshold initializeFilters) frame"
| "expected hst frame sl C_blueThresholdCanvas = out sl (blueThreshold initializeFilters) frame"
| "expected hst frame sl C_colorSpace1 = out sl (rgbHsv initializeFilters) frame"
| "expected hst frame sl C_thresholdSpace1 =
     out sl (rgbHsvThreshold initializeFilters) (out sl (rgbHsv initializeFilters) frame)"
| "expected hst frame sl C_colorSpace2 = out sl (ycbcr initializeFilters) frame"
| "expected hst frame sl C_thresholdSpace2 =
     out sl (ycbcrThreshold initializeFilters) (out sl (ycbcr initializeFilters) frame)"
| "expected hst frame sl C_faceDetection =
     face_output hst (out sl (webcamRepeat initializeFilters) frame)"

definition cycle_inv ::
    "host \<Rightarrow> canvas \<Rightarrow> (slider_id \<Rightarrow> int) \<Rightarrow> canvas_id list \<Rightarrow> app \<Rightarrow> bool" where
  "cycle_inv hst frame sl D s \<longleftrightarrow>
     cycle_ready frame sl s
     \<and> (\<forall>cid \<in> set D. visible (dom_canvas s cid) = expected hst frame sl cid
            \<and> good_image (dom_canvas s cid))"

definition cycle_done :: "host \<Rightarrow> canvas \<Rightarrow> (slider_id \<Rightarrow> int) \<Rightarrow> app \<Rightarrow> bool" where
  "cycle_done hst frame sl s \<longleftrightarrow>
     cycle_ready frame sl s
     \<and> (\<forall>cid. visible (dom_canvas s cid) = expected hst frame sl cid)"

text \<open>
  States used in the examples: a camera that shows a white frame over empty canvases,
  the same with the abstract \<open>ImageFilter\<close> in the place of the grayscale filter, and a
  host whose detector rejects.
\<close>

definition white_frame :: canvas where
  "white_frame = \<lparr>cwidth = CANVAS_WIDTH, cheight = CANVAS_HEIGHT,
                   bitmap = (\<lambda>x y. RGBA 255 255 255 255)\<rparr>"

definition example_app :: app where
  "example_app =
     \<lparr>webcamVideo = Some white_frame,
      dom_canvas = (\<lambda>cid. createCanvas CANVAS_WIDTH CANVAS_HEIGHT),
      sliders = (\<lambda>s. 128), filters = initializeFilters,
      detections = [], console = [], alerts = []\<rparr>"

definition failing_host :: host where
  "failing_host = plain_host\<lparr>detect := (\<lambda>c. Inl (Error ''load model before inference''))\<rparr>"

definition broken_app :: app where
  "broken_app = example_app\<lparr>filters := initializeFilters\<lparr>grayscale := ImageFilter C_grayscale\<rparr>\<rparr>"

section \<open>Rounding to binary64\<close>

text \<open>
  \<open>fl\<close> is within half a unit in the last place of its argument, keeps zero, the sign
  and the integers below \<open>2 ^ 53\<close>, and is idempotent: its values are binary64 values.
\<close>

lemma rhe_err: "\<bar>of_int (rhe y) - y\<bar> \<le> 1 / 2"
proof -
  define f where "f = \<lfloor>y\<rfloor>"
  have "of_int f \<le> y" "y < of_int f + 1" unfolding f_def by linarith+
  then show ?thesis unfolding rhe_def Let_def f_def[symmetric] by (simp add: abs_if)
qed

lemma rhe_of_int: "rhe (of_int n) = n"
  by (simp add: rhe_def)

lemma binade_bounds:
  assumes "x \<noteq> 0"
  shows "2 powi binade x \<le> \<bar>x\<bar>" "\<bar>x\<bar> < 2 powi (binade x + 1)"
proof -
  define a where "a = \<bar>x\<bar>"
  have a: "0 < a" using assms by (simp add: a_def)
  have "2 powi binade x \<le> a \<and> a < 2 powi (binade x + 1)"
  proof (cases "1 \<le> a")
    case True
    define n where "n = \<lfloor>a\<rfloor>"
    have n: "0 < n" "of_int n \<le> a" "a < of_int n + 1" using True by (simp_all add: n_def) linarith+
    have b: "binade x = bitlen n - 1" using True by (simp add: binade_def a_def n_def)
    from bitlen_bounds[OF n(1)] have bb: "2 ^ nat (bitlen n - 1) \<le> n" "n < 2 ^ nat (bitlen n)" by simp_all
    have bl: "0 < bitlen n"
    proof (rule ccontr)
      assume "\<not> 0 < bitlen n"
      then have "nat (bitlen n) = 0" by simp
      then show False using bb(2) n(1) by simp
    qed
    have "(2::rat) powi (bitlen n - 1) = 2 ^ nat (bitlen n - 1)" using bl by (simp add: power_int_def)
    also have "\<dots> = of_int (2 ^ nat (bitlen n - 1))" by simp
    also have "\<dots> \<le> of_int n" using bb(1) by (simp only: of_int_le_iff)
    finally have lo: "2 powi (bitlen n - 1) \<le> a" using n(2) by linarith
    have "n + 1 \<le> 2 ^ nat (bitlen n)" using bb(2) by simp
    then have "(of_int (n + 1) :: rat) \<le> of_int (2 ^ nat (bitlen n))" by (simp only: of_int_le_iff)
    also have "\<dots> = 2 powi (bitlen n)" using bl by (simp add: power_int_def)
    finally have hi: "a < 2 powi (bitlen n)" using n(3) by simp
    show ?thesis using lo hi by (simp add: b)
  next
    case False
    define k where "k = \<lceil>1 / a\<rceil> - 1"
    have ia: "1 < 1 / a" using False a by simp
    have k: "of_int k < 1 / a" "1 / a \<le> of_int k + 1" by (simp_all add: k_def) linarith+
    have k1: "1 \<le> k" using ia k(2) by linarith
    have b: "binade x = - bitlen k" using False by (simp add: binade_def a_def k_def)
    from bitlen_bounds[of k] k1 have bb: "2 ^ nat (bitlen k - 1) \<le> k" "k < 2 ^ nat (bitlen k)" by simp_all
    have bl: "0 < bitlen k" 
    proof (rule ccontr)
      assume "\<not> 0 < bitlen k"
      then have "nat (bitlen k) = 0" by simp
      then show False using bb(2) k1 by simp
    qed
    have "k + 1 \<le> 2 ^ nat (bitlen k)" using bb(2) by simp
    then have "(of_int (k + 1) :: rat) \<le> of_int (2 ^ nat (bitlen k))" by (simp only: of_int_le_iff)
    also have "\<dots> = 2 powi (bitlen k)" using bl by (simp add: power_int_def)
    finally have "1 / a \<le> 2 powi (bitlen k)" using k(2) by simp
    then have "1 \<le> 2 powi (bitlen k) * a" using a by (simp add: field_simps)
    then have lo: "2 powi (- bitlen k) \<le> a"
      by (simp add: power_int_minus field_simps)
    have "(2::rat) powi (bitlen k - 1) = 2 ^ nat (bitlen k - 1)" using bl by (simp add: power_int_def)
    also have "\<dots> = of_int (2 ^ nat (bitlen k - 1))" by simp
    also have "\<dots> \<le> of_int k" using bb(1) by (simp only: of_int_le_iff)
    finally have "2 powi (bitlen k - 1) < 1 / a" using k(1) by linarith
    then have "a < 1 / 2 powi (bitlen k - 1)" using a by (simp add: field_simps)
    moreover have "(2::rat) powi (- bitlen k + 1) = 1 / (2 powi (bitlen k - 1))"
      using power_int_minus[of "2::rat" "bitlen k - 1"] by (simp add: field_simps)
    ultimately have hi: "a < 2 powi (- bitlen k + 1)"
      by simp
    show ?thesis using lo hi by (simp add: b)
  qed
  then show "2 powi binade x \<le> \<bar>x\<bar>" "\<bar>x\<bar> < 2 powi (binade x + 1)" by (simp_all add: a_def)
qed

lemma powi2_less_imp: "(2::rat) powi a < 2 powi b \<Longrightarrow> a < b"
  using power_int_increasing[of b a "2::rat"] by (cases "a < b") simp_all

lemma powi2_pos: "0 < (2::rat) powi n"
  by (simp add: power_int_def)

lemma binade_unique:
  assumes "2 powi e \<le> \<bar>x\<bar>" "\<bar>x\<bar> < 2 powi (e + 1)"
  shows "binade x = e"
proof -
  have "0 < \<bar>x\<bar>" using assms(1) powi2_pos[of e] by linarith
  then have x: "x \<noteq> 0" by simp
  from binade_bounds[OF x] assms
  have "(2::rat) powi binade x < 2 powi (e + 1)" "(2::rat) powi e < 2 powi (binade x + 1)"
    by linarith+
  then have "binade x < e + 1" "e < binade x + 1" by (simp_all only: powi2_less_imp)
  then show ?thesis by simp
qed

lemma fl_0: "fl 0 = 0"
  by (simp add: fl_def)

lemma fl_rel: "\<bar>fl x - x\<bar> \<le> \<bar>x\<bar> / 2 ^ 53"
proof (cases "x = 0")
  case True
  then show ?thesis by (simp add: fl_def)
next
  case False
  define q :: rat where "q = 2 powi (binade x - 52)"
  have q: "0 < q" by (simp add: q_def powi2_pos)
  have fx: "fl x = q * of_int (rhe (x / q))" using False by (simp add: fl_def q_def Let_def)
  have "fl x - x = q * (of_int (rhe (x / q)) - x / q)" using q by (simp add: fx algebra_simps)
  then have "\<bar>fl x - x\<bar> = \<bar>q\<bar> * \<bar>of_int (rhe (x / q)) - x / q\<bar>" by (simp only: abs_mult)
  also have "\<dots> \<le> q * (1 / 2)" using q rhe_err[of "x / q"] by (intro mult_mono) simp_all
  also have "q = 2 powi binade x / 2 ^ 52" by (simp add: q_def power_int_diff)
  also have "(2::rat) powi binade x / 2 ^ 52 * (1 / 2) = 2 powi binade x / 2 ^ 53" by simp
  also have "\<dots> \<le> \<bar>x\<bar> / 2 ^ 53" using binade_bounds(1)[OF False] by (simp add: divide_right_mono)
  finally show ?thesis .
qed

lemma fl_abs:
  assumes "\<bar>x\<bar> \<le> B"
  shows "\<bar>fl x - x\<bar> \<le> B / 2 ^ 53"
proof -
  have "\<bar>x\<bar> / 2 ^ 53 \<le> B / 2 ^ 53" using assms by (simp add: divide_right_mono)
  then show ?thesis using fl_rel[of x] by linarith
qed

lemma fl_nonneg: "0 \<le> x \<Longrightarrow> 0 \<le> fl x"
  using fl_rel[of x] by (simp add: abs_if split: if_splits)

lemma fl_eq_0_iff: "fl x = 0 \<longleftrightarrow> x = 0"
  using fl_rel[of x] by (auto simp: fl_0 abs_if split: if_splits)

lemma fl_of_int:
  assumes "\<bar>n\<bar> < 2 ^ 53"
  shows "fl (of_int n) = of_int n"
proof (cases "n = 0")
  case True
  then show ?thesis by (simp add: fl_def)
next
  case False
  define e where "e = binade (of_int n)"
  have n0: "(of_int n :: rat) \<noteq> 0" using False by simp
  have "(of_int \<bar>n\<bar> :: rat) < of_int (2 ^ 53)" using assms by (simp only: of_int_less_iff)
  then have "\<bar>of_int n :: rat\<bar> < 2 powi 53" by simp
  with binade_bounds(1)[OF n0] have "(2::rat) powi e < 2 powi 53" unfolding e_def by linarith
  then have e: "e < 53" by (rule powi2_less_imp)
  define k where "k = nat (52 - e)"
  have "(2::rat) powi (e - 52) = 2 powi (- int k)" using e by (simp add: k_def)
  also have "\<dots> = 1 / 2 ^ k" by (simp add: power_int_minus_divide)
  finally have q: "(2::rat) powi (e - 52) = 1 / 2 ^ k" .
  have "of_int n / (1 / 2 ^ k) = (of_int (n * 2 ^ k) :: rat)" by simp
  then have "rhe (of_int n / (1 / 2 ^ k)) = n * 2 ^ k" by (simp only: rhe_of_int)
  then show ?thesis using n0 by (simp add: fl_def Let_def e_def[symmetric] q)
qed

lemma fl_of_nat:
  assumes "n < 2 ^ 53"
  shows "fl (of_nat n) = of_nat n"
proof -
  have "int n < 2 ^ 53" using assms by (metis of_nat_less_iff of_nat_numeral of_nat_power)
  then have "fl (of_int (int n)) = of_int (int n)" by (intro fl_of_int) simp
  then show ?thesis by simp
qed

lemma rhe_mono: "x \<le> y \<Longrightarrow> rhe x \<le> rhe y"
proof -
  assume xy: "x \<le> y"
  define f g where "f = \<lfloor>x\<rfloor>" and "g = \<lfloor>y\<rfloor>"
  have fg: "f \<le> g" using xy by (simp add: f_def g_def floor_mono)
  have b: "of_int f \<le> x" "x < of_int f + 1" "of_int g \<le> y" "y < of_int g + 1"
    unfolding f_def g_def by linarith+
  show ?thesis
  proof (cases "f = g")
    case True
    then show ?thesis using xy b unfolding rhe_def Let_def f_def[symmetric] g_def[symmetric]
      by (auto split: if_splits)
  next
    case False
    then have "f + 1 \<le> g" using fg by simp
    moreover have "rhe x \<le> f + 1" unfolding rhe_def Let_def f_def[symmetric] by simp
    moreover have "g \<le> rhe y" unfolding rhe_def Let_def g_def[symmetric] by simp
    ultimately show ?thesis by linarith
  qed
qed

lemma fl_idem: "fl (fl x) = fl x"
proof (cases "x = 0")
  case True
  then show ?thesis by (simp add: fl_def)
next
  case False
  define e where "e = binade x"
  define q :: rat where "q = 2 powi (e - 52)"
  define n where "n = rhe (x / q)"
  have q: "0 < q" by (simp add: q_def powi2_pos)
  have fx: "fl x = q * of_int n" using False by (simp add: fl_def q_def n_def e_def Let_def)
  have qe: "q * 2 ^ 52 = 2 powi e" by (simp add: q_def power_int_diff)
  have qe1: "q * 2 ^ 53 = 2 powi (e + 1)" using qe by (simp add: power_int_add)
  from binade_bounds[OF False] have bx: "q * 2 ^ 52 \<le> \<bar>x\<bar>" "\<bar>x\<bar> < q * 2 ^ 53"
    unfolding e_def[symmetric] qe qe1 by simp_all
  have ax: "2 ^ 52 \<le> \<bar>x / q\<bar>" "\<bar>x / q\<bar> \<le> 2 ^ 53"
    using bx q by (simp_all add: abs_mult field_simps)
  have an: "2 ^ 52 \<le> \<bar>n\<bar> \<and> \<bar>n\<bar> \<le> 2 ^ 53"
  proof (cases "0 \<le> x")
    case True
    then have "0 \<le> x / q" using q by simp
    then have "2 ^ 52 \<le> x / q" "x / q \<le> 2 ^ 53" using ax by (simp_all add: abs_if split: if_splits)
    then have "rhe (of_int (2 ^ 52)) \<le> rhe (x / q)" "rhe (x / q) \<le> rhe (of_int (2 ^ 53))"
      by (intro rhe_mono; simp)+
    then show ?thesis unfolding rhe_of_int n_def[symmetric] by simp
  next
    case False
    then have x: "x < 0" by simp
    then have "x / q < 0" using q by (simp add: divide_neg_pos)
    then have "x / q \<le> - (2 ^ 52)" "- (2 ^ 53) \<le> x / q" using ax by (simp_all add: abs_if split: if_splits)
    then have "rhe (x / q) \<le> rhe (of_int (- (2 ^ 52)))" "rhe (of_int (- (2 ^ 53))) \<le> rhe (x / q)"
      by (intro rhe_mono; simp)+
    then show ?thesis unfolding rhe_of_int n_def[symmetric] by simp
  qed
  have afx: "\<bar>fl x\<bar> = q * of_int \<bar>n\<bar>" using q by (simp add: fx abs_mult)
  show ?thesis
  proof (cases "\<bar>n\<bar> = 2 ^ 53")
    case True
    have "\<bar>fl x\<bar> = 2 powi (e + 1)" using qe1 by (simp add: afx True)
    then have "binade (fl x) = e + 1" by (intro binade_unique) (simp_all add: power_int_add)
    moreover have f0: "fl x \<noteq> 0" using an q fx by auto
    moreover have q2: "(2::rat) powi (e + 1 - 52) = 2 * q" by (simp add: q_def power_int_add power_int_diff)
    moreover have "fl x / (2 * q) = of_int (n div 2)"
    proof -
      have "even n" using True by (metis even_abs_add_iff even_add even_numeral even_power zero_less_numeral)
      then obtain m where "n = 2 * m" by (elim evenE)
      then show ?thesis using q by (simp add: fx)
    qed
    moreover have "2 * (n div 2) = n"
    proof -
      have "even n" using True by (metis even_abs_add_iff even_add even_numeral even_power zero_less_numeral)
      then show ?thesis by simp
    qed
    ultimately have "fl (fl x) = 2 * q * of_int (n div 2)"
      by (simp add: fl_def[of "fl x"] Let_def rhe_of_int)
    also have "\<dots> = q * of_int (2 * (n div 2))" by simp
    also have "\<dots> = fl x" unfolding \<open>2 * (n div 2) = n\<close> fx ..
    finally show ?thesis .
  next
    case False
    then have "\<bar>n\<bar> < 2 ^ 53" using an by simp
    then have "(of_int \<bar>n\<bar> :: rat) < of_int (2 ^ 53)" by (simp only: of_int_less_iff)
    then have "q * of_int \<bar>n\<bar> < q * 2 ^ 53" using q by simp
    moreover have "(of_int (2 ^ 52) :: rat) \<le> of_int \<bar>n\<bar>" using an by (simp only: of_int_le_iff)
    then have "q * 2 ^ 52 \<le> q * of_int \<bar>n\<bar>" using q by simp
    ultimately have "binade (fl x) = e" unfolding afx[symmetric] qe qe1 by (intro binade_unique)
    moreover have f0: "fl x \<noteq> 0" using an q fx by auto
    moreover have "fl x / q = of_int n" using q by (simp add: fx)
    ultimately have "fl (fl x) = q * of_int n"
      by (simp add: fl_def[of "fl x"] Let_def rhe_of_int q_def[symmetric])
    then show ?thesis by (simp add: fx)
  qed
qed

section \<open>Threshold filters\<close>

text \<open>
  C4. For every input pixel and every threshold, the output pixel of the channel-threshold
  filter is 0 or 255 in the filter's own channel, 0 in the two other colour channels, and
  has alpha 255; \<open>processImageData\<close> replaces every pixel of the image by that output.
\<close>

theorem channelThreshold_binary:
  "(component (channelThreshold_pixel ch t p) (channelIndex ch) = 0
      \<or> component (channelThreshold_pixel ch t p) (channelIndex ch) = 255)
   \<and> component (channelThreshold_pixel ch t p) ((channelIndex ch + 1) mod 3) = 0
   \<and> component (channelThreshold_pixel ch t p) ((channelIndex ch + 2) mod 3) = 0
   \<and> alpha (channelThreshold_pixel ch t p) = 255
   \<and> ChannelThresholdFilter_processImageData ch t d = map (channelThreshold_pixel ch t) d"
  by (cases ch)
    (simp_all add: channelThreshold_pixel_def ChannelThresholdFilter_processImageData_def Let_def)

text \<open>
  C3. In each of the five threshold filters (red, green and blue channel threshold, HSV
  value threshold, YCbCr luma threshold) the comparison is a strict greater-than: a pixel
  whose designated component equals the threshold takes the branch of the pixels below it
  and comes out black.
\<close>

theorem threshold_strict:
  "(int (component p (channelIndex ch)) = t \<longrightarrow>
      channelThreshold_pixel ch t p = RGBA 0 0 0 255)
   \<and> (int (blue p) = t \<longrightarrow> rgbHsvThreshold_pixel t p = RGBA 0 0 0 255)
   \<and> (int (red p) = t \<longrightarrow> yCbCrThreshold_pixel t p = RGBA 0 0 0 255)"
  by (simp add: channelThreshold_pixel_def rgbHsvThreshold_pixel_def
      yCbCrThreshold_pixel_def Let_def)

theorem threshold_strict_witness:
  "int (component (RGBA 128 200 128 7) (channelIndex Red)) = 128
   \<and> channelThreshold_pixel Red 128 (RGBA 128 200 128 7) = RGBA 0 0 0 255
   \<and> int (blue (RGBA 128 200 128 7)) = 128
   \<and> rgbHsvThreshold_pixel 128 (RGBA 128 200 128 7) = RGBA 0 0 0 255
   \<and> int (red (RGBA 128 200 128 7)) = 128
   \<and> yCbCrThreshold_pixel 128 (RGBA 128 200 128 7) = RGBA 0 0 0 255"
  using threshold_strict [of "RGBA 128 200 128 7" Red 128] by simp

section \<open>Colour-space transforms\<close>

lemma yCbCr_pixel_alpha:
  "yCbCr_pixel (RGBA r g b a) =
     RGBA (red (yCbCr_pixel (RGBA r g b 0))) (green (yCbCr_pixel (RGBA r g b 0)))
          (blue (yCbCr_pixel (RGBA r g b 0))) a"
  by (simp add: yCbCr_pixel_def Let_def)

lemma yCbCr_white: "yCbCr_pixel (RGBA 255 255 255 0) = RGBA 255 128 128 0"
  by code_simp

lemma yCbCr_black: "yCbCr_pixel (RGBA 0 0 0 0) = RGBA 0 128 128 0"
  by code_simp

text \<open>
  C5. The RGB-to-YCbCr transform stores (255, 128, 128) for pure white and (0, 128, 128)
  for pure black; the three coefficient rows sum to 1, 0 and 0.
\<close>

theorem yCbCr_white_black:
  "yCbCr_pixel (RGBA 255 255 255 a) = RGBA 255 128 128 a
   \<and> yCbCr_pixel (RGBA 0 0 0 a) = RGBA 0 128 128 a
   \<and> Y_R + Y_G + Y_B = 1 \<and> CB_R + CB_G + CB_B = 0 \<and> CR_R + CR_G + CR_B = 0"
proof -
  have "yCbCr_pixel (RGBA 255 255 255 a) = RGBA 255 128 128 a"
    by (simp add: yCbCr_pixel_alpha[of 255 255 255 a] yCbCr_white)
  moreover have "yCbCr_pixel (RGBA 0 0 0 a) = RGBA 0 128 128 a"
    by (simp add: yCbCr_pixel_alpha[of 0 0 0 a] yCbCr_black)
  moreover have "Y_R + Y_G + Y_B = 1 \<and> CB_R + CB_G + CB_B = 0 \<and> CR_R + CR_G + CR_B = 0"
    by (simp add: Y_R_def Y_G_def Y_B_def CB_R_def CB_G_def CB_B_def CR_R_def CR_G_def CR_B_def)
  ultimately show ?thesis by simp
qed

subsection \<open>The HSV round trip: exact arithmetic\<close>

lemma clamp01_range: "0 \<le> clamp01 y \<and> clamp01 y \<le> 1"
  by (simp add: clamp01_def)

lemma clamp01_lipschitz: "\<bar>clamp01 y - clamp01 z\<bar> \<le> \<bar>y - z\<bar>"
  by (simp add: clamp01_def max_def min_def abs_if)

lemma tent_range:
  "0 \<le> tentR h" "tentR h \<le> 1" "0 \<le> tentG h" "tentG h \<le> 1" "0 \<le> tentB h" "tentB h \<le> 1"
  using clamp01_range by (simp_all add: tentR_def tentG_def tentB_def)

lemma tent_lipschitz:
  "\<bar>tentR h - tentR k\<bar> \<le> \<bar>h - k\<bar> / 60"
  "\<bar>tentG h - tentG k\<bar> \<le> \<bar>h - k\<bar> / 60"
  "\<bar>tentB h - tentB k\<bar> \<le> \<bar>h - k\<bar> / 60"
proof -
  have a: "\<bar>\<bar>y\<bar> - \<bar>z\<bar>\<bar> \<le> \<bar>y - z\<bar>" for y z :: rat by simp
  have "\<bar>tentR h - tentR k\<bar> \<le> \<bar>(\<bar>h / 60 - 3\<bar> - 1) - (\<bar>k / 60 - 3\<bar> - 1)\<bar>"
    unfolding tentR_def by (rule clamp01_lipschitz)
  also have "\<dots> \<le> \<bar>(h / 60 - 3) - (k / 60 - 3)\<bar>" using a[of "h/60 - 3" "k/60 - 3"] by simp
  also have "\<dots> = \<bar>h - k\<bar> / 60" by (simp add: diff_divide_distrib[symmetric])
  finally show "\<bar>tentR h - tentR k\<bar> \<le> \<bar>h - k\<bar> / 60" .
  have "\<bar>tentG h - tentG k\<bar> \<le> \<bar>(2 - \<bar>h / 60 - 2\<bar>) - (2 - \<bar>k / 60 - 2\<bar>)\<bar>"
    unfolding tentG_def by (rule clamp01_lipschitz)
  also have "\<dots> \<le> \<bar>(h / 60 - 2) - (k / 60 - 2)\<bar>" using a[of "k/60 - 2" "h/60 - 2"] by (simp add: abs_minus_commute)
  also have "\<dots> = \<bar>h - k\<bar> / 60" by (simp add: diff_divide_distrib[symmetric])
  finally show "\<bar>tentG h - tentG k\<bar> \<le> \<bar>h - k\<bar> / 60" .
  have "\<bar>tentB h - tentB k\<bar> \<le> \<bar>(2 - \<bar>h / 60 - 4\<bar>) - (2 - \<bar>k / 60 - 4\<bar>)\<bar>"
    unfolding tentB_def by (rule clamp01_lipschitz)
  also have "\<dots> \<le> \<bar>(h / 60 - 4) - (k / 60 - 4)\<bar>" using a[of "k/60 - 4" "h/60 - 4"] by (simp add: abs_minus_commute)
  also have "\<dots> = \<bar>h - k\<bar> / 60" by (simp add: diff_divide_distrib[symmetric])
  finally show "\<bar>tentB h - tentB k\<bar> \<le> \<bar>h - k\<bar> / 60" .
qed

lemma js_rem_2:
  assumes "0 \<le> q" "q < 6"
  shows "js_rem q 2 = (if q < 2 then q else if q < 4 then q - 2 else q - 4)"
proof -
  have f: "\<lfloor>q / 2\<rfloor> = (if q < 2 then 0 else if q < 4 then 1 else 2)"
    using assms by (auto simp: floor_eq_iff)
  show ?thesis using assms by (simp add: js_rem_def js_trunc_def f)
qed

lemma tri_eq:
  assumes "0 \<le> q" "q < 6"
  shows "tri q = \<bar>\<bar>\<bar>q - 3\<bar> - 2\<bar> - 1\<bar>"
  unfolding tri_def js_rem_2[OF assms] using assms by (simp add: abs_if)

lemma tri_lipschitz:
  assumes "0 \<le> p" "p < 6" "0 \<le> q" "q < 6"
  shows "\<bar>tri p - tri q\<bar> \<le> \<bar>p - q\<bar>"
proof -
  have a: "\<bar>\<bar>y\<bar> - \<bar>z\<bar>\<bar> \<le> \<bar>y - z\<bar>" for y z :: rat by simp
  have "\<bar>tri p - tri q\<bar> \<le> \<bar>(\<bar>\<bar>p - 3\<bar> - 2\<bar> - 1) - (\<bar>\<bar>q - 3\<bar> - 2\<bar> - 1)\<bar>"
    unfolding tri_eq[OF assms(1,2)] tri_eq[OF assms(3,4)] by (rule a)
  also have "\<dots> = \<bar>\<bar>\<bar>p - 3\<bar> - 2\<bar> - \<bar>\<bar>q - 3\<bar> - 2\<bar>\<bar>" by simp
  also have "\<dots> \<le> \<bar>(\<bar>p - 3\<bar> - 2) - (\<bar>q - 3\<bar> - 2)\<bar>" by (rule a)
  also have "\<dots> = \<bar>\<bar>p - 3\<bar> - \<bar>q - 3\<bar>\<bar>" by simp
  also have "\<dots> \<le> \<bar>(p - 3) - (q - 3)\<bar>" by (rule a)
  also have "\<dots> = \<bar>p - q\<bar>" by simp
  finally show ?thesis .
qed

lemma tri_range:
  assumes "0 \<le> q" "q < 6"
  shows "0 \<le> tri q" "tri q \<le> 1"
  unfolding tri_eq[OF assms] using assms by (simp_all add: abs_if)

lemma hsv_sector_tent:
  assumes "0 \<le> h" "h < 360"
  shows "hsv_sector h c (c * tri (h / 60)) = (c * tentR h, c * tentG h, c * tentB h)"
proof -
  have q: "0 \<le> h / 60" "h / 60 < 6" using assms by simp_all
  show ?thesis
    using assms unfolding tri_def js_rem_2[OF q] hsv_sector_def tentR_def tentG_def tentB_def clamp01_def
    by (auto simp: abs_if max_def min_def field_simps)
qed

lemma hsv_sector_near:
  assumes h: "0 \<le> h" "h < 360"
    and x: "\<bar>x - c * tri (h / 60)\<bar> \<le> e"
    and s: "hsv_sector h c x = (r, g, b)"
  shows "\<bar>r - c * tentR h\<bar> \<le> e \<and> \<bar>g - c * tentG h\<bar> \<le> e \<and> \<bar>b - c * tentB h\<bar> \<le> e"
proof -
  have e: "0 \<le> e" using x by linarith
  define x0 where "x0 = c * tri (h / 60)"
  have t: "hsv_sector h c x0 = (c * tentR h, c * tentG h, c * tentB h)"
    unfolding x0_def by (rule hsv_sector_tent[OF h])
  have x': "\<bar>x - x0\<bar> \<le> e" using x by (simp add: x0_def)
  show ?thesis
    using s t x' e h unfolding hsv_sector_def
    by (auto split: if_splits)
qed

lemma tent_sector0:
  assumes "0 \<le> t" "t \<le> 1"
  shows "tentR (60 * t) = 1" "tentG (60 * t) = t" "tentB (60 * t) = 0"
  using assms by (simp_all add: tentR_def tentG_def tentB_def clamp01_def abs_if max_def min_def)

lemma tent_sector12:
  assumes "- 1 \<le> u" "u \<le> 1"
  shows "tentR (60 * (u + 2)) = max 0 (- u)" "tentG (60 * (u + 2)) = 1"
    "tentB (60 * (u + 2)) = max 0 u"
proof -
  have e: "60 * (u + 2) / 60 = u + 2" by simp
  show "tentR (60 * (u + 2)) = max 0 (- u)" "tentG (60 * (u + 2)) = 1"
    "tentB (60 * (u + 2)) = max 0 u"
    unfolding tentR_def tentG_def tentB_def clamp01_def e
    using assms by (simp_all add: abs_if max_def min_def)
qed

lemma tent_sector34:
  assumes "- 1 \<le> w" "w \<le> 1"
  shows "tentR (60 * (w + 4)) = max 0 w" "tentG (60 * (w + 4)) = max 0 (- w)"
    "tentB (60 * (w + 4)) = 1"
proof -
  have e: "60 * (w + 4) / 60 = w + 4" by simp
  show "tentR (60 * (w + 4)) = max 0 w" "tentG (60 * (w + 4)) = max 0 (- w)"
    "tentB (60 * (w + 4)) = 1"
    unfolding tentR_def tentG_def tentB_def clamp01_def e
    using assms by (simp_all add: abs_if max_def min_def)
qed

lemma js_rem_6_small:
  assumes "0 \<le> t" "t < 6"
  shows "js_rem t 6 = t"
proof -
  have "\<lfloor>t / 6\<rfloor> = 0" using assms by (simp add: floor_eq_iff)
  then show ?thesis using assms by (simp add: js_rem_def js_trunc_def)
qed

lemma hue_tent:
  fixes r g b :: rat
  assumes nonneg: "\<not> (g < b \<and> g \<le> r \<and> b \<le> r)"
  shows "0 \<le> hue r g b \<and> hue r g b < 300
    \<and> r = min r (min g b) + (max r (max g b) - min r (min g b)) * tentR (hue r g b)
    \<and> g = min r (min g b) + (max r (max g b) - min r (min g b)) * tentG (hue r g b)
    \<and> b = min r (min g b) + (max r (max g b) - min r (min g b)) * tentB (hue r g b)"
proof -
  let ?mx = "max r (max g b)" and ?mn = "min r (min g b)"
  let ?d = "?mx - ?mn"
  consider (gray) "?d = 0" | (rmax) "?d \<noteq> 0" "?mx = r" | (gmax) "?d \<noteq> 0" "?mx \<noteq> r" "?mx = g"
    | (bmax) "?d \<noteq> 0" "?mx \<noteq> r" "?mx \<noteq> g"
    by blast
  then show ?thesis
  proof cases
    case gray
    then have "hue r g b = 0" by (simp add: hue_def Let_def)
    moreover have "r = ?mn" "g = ?mn" "b = ?mn" using gray by (auto simp: max_def min_def split: if_splits)
    ultimately show ?thesis using gray by simp
  next
    case rmax
    have gb: "b \<le> g" "g \<le> r" "b < r" using rmax nonneg by (auto simp: max_def min_def split: if_splits)
    then have mn: "?mn = b" by (simp add: min_def)
    define t where "t = (g - b) / (r - b)"
    have t: "0 \<le> t" "t \<le> 1" "(r - b) * t = g - b" using gb by (simp_all add: t_def)
    have t6: "t < 6" using t by simp
    have h: "hue r g b = 60 * t"
      using rmax mn js_rem_6_small[OF t(1) t6] by (simp add: hue_def Let_def t_def)
    show ?thesis unfolding h using t rmax(2) mn by (simp add: tent_sector0[OF t(1,2)])
  next
    case gmax
    have gb: "r < g" "b \<le> g" using gmax by (auto simp: max_def min_def split: if_splits)
    have d: "?d = g - ?mn" "0 < g - ?mn" using gmax gb by (auto simp: min_def)
    define u where "u = (b - r) / (g - ?mn)"
    have u: "- 1 \<le> u" "u \<le> 1" using gb d(2) by (auto simp: u_def field_simps min_def)
    have mx: "?mx = g" using gb by (simp add: max_def)
    have h: "hue r g b = 60 * (u + 2)"
      unfolding hue_def Let_def mx u_def using gb d(2) by simp
    have prod: "(g - ?mn) * u = b - r" using d(2) by (simp add: u_def)
    have m12: "(g - ?mn) * max 0 (- u) = r - ?mn \<and> (g - ?mn) * max 0 u = b - ?mn"
    proof (cases "r \<le> b")
      case True
      then have mn: "?mn = r" using gb by (simp add: min_def)
      have "0 \<le> u" using True d(2) by (simp add: u_def)
      then have "max 0 (- u) = 0" "max 0 u = u" by simp_all
      then show ?thesis using prod unfolding mn by simp
    next
      case False
      then have mn: "?mn = b" using gb by (simp add: min_def)
      have "u < 0" using False d(2) by (simp add: u_def field_simps)
      then have "max 0 (- u) = - u" "max 0 u = 0" by simp_all
      then show ?thesis using prod unfolding mn by simp
    qed
    then have m1: "(g - ?mn) * max 0 (- u) = r - ?mn" and m2: "(g - ?mn) * max 0 u = b - ?mn"
      by blast+
    show ?thesis unfolding h d(1) tent_sector12[OF u] using u m1 m2 by simp
  next
    case bmax
    have gb: "r < b" "g < b" using bmax by (auto simp: max_def min_def split: if_splits)
    have d: "?d = b - ?mn" "0 < b - ?mn" using bmax gb by (auto simp: min_def max_def)
    define w where "w = (r - g) / (b - ?mn)"
    have w: "- 1 \<le> w" "w < 1" using gb d(2) by (auto simp: w_def field_simps min_def)
    have w': "w \<le> 1" using w by simp
    have mx: "?mx = b" using gb by (simp add: max_def)
    have h: "hue r g b = 60 * (w + 4)"
      unfolding hue_def Let_def mx w_def using gb d(2) by simp
    have prod: "(b - ?mn) * w = r - g" using d(2) by (simp add: w_def)
    have m12: "(b - ?mn) * max 0 w = r - ?mn \<and> (b - ?mn) * max 0 (- w) = g - ?mn"
    proof (cases "g \<le> r")
      case True
      then have mn: "?mn = g" using gb by (simp add: min_def)
      have "0 \<le> w" using True d(2) by (simp add: w_def)
      then have "max 0 w = w" "max 0 (- w) = 0" by simp_all
      then show ?thesis using prod unfolding mn by simp
    next
      case False
      then have mn: "?mn = r" using gb by (simp add: min_def)
      have "w < 0" using False d(2) by (simp add: w_def field_simps)
      then have "max 0 w = 0" "max 0 (- w) = - w" by simp_all
      then show ?thesis using prod unfolding mn by simp
    qed
    then have m1: "(b - ?mn) * max 0 w = r - ?mn" and m2: "(b - ?mn) * max 0 (- w) = g - ?mn"
      by blast+
    show ?thesis unfolding h d(1) tent_sector34[OF w(1) w'] using w m1 m2 by simp
  qed
qed

lemma toUint8Clamp_near:
  assumes "- (1 / 2) \<le> x" "x \<le> 255 + 1 / 2"
  shows "\<bar>of_nat (toUint8Clamp x) - x\<bar> \<le> 1 / 2"
proof (cases "0 \<le> x \<and> x \<le> 255")
  case True
  define f where "f = \<lfloor>x\<rfloor>"
  have f: "of_int f \<le> x" "x < of_int f + 1" "0 \<le> f"
    using True floor_correct[of x] by (simp_all add: f_def)
  have n: "of_nat (nat f) = (of_int f :: rat)" "of_nat (nat (f + 1)) = (of_int f + 1 :: rat)"
    using f(3) by (simp_all add: of_nat_nat)
  show ?thesis
    using True f n unfolding toUint8Clamp_def Let_def f_def[symmetric]
    by (auto simp: abs_if)
next
  case False
  then show ?thesis using assms by (auto simp: toUint8Clamp_def abs_if)
qed

lemma toUint8Clamp_of_nat:
  assumes "n \<le> 255"
  shows "toUint8Clamp (of_nat n) = n"
proof -
  have "\<lfloor>(of_nat n :: rat)\<rfloor> = int n" by simp
  then show ?thesis using assms by (auto simp: toUint8Clamp_def Let_def)
qed

lemma toUint8Clamp_round:
  assumes n: "n \<le> 255" and x: "\<bar>x - of_nat n\<bar> < 1 / 2"
  shows "toUint8Clamp x = n"
proof -
  have r: "- (1 / 2) \<le> x" "x \<le> 255 + 1 / 2"
  proof -
    have "(of_nat n :: rat) \<le> of_nat 255" using n by (simp only: of_nat_le_iff)
    then show "- (1 / 2) \<le> x" "x \<le> 255 + 1 / 2" using x by (simp_all add: abs_if split: if_splits)
  qed
  have "\<bar>of_nat (toUint8Clamp x) - (of_nat n :: rat)\<bar> < 1"
    using toUint8Clamp_near[OF r] x by linarith
  then have "\<bar>(of_int (int (toUint8Clamp x) - int n) :: rat)\<bar> < 1" by simp
  then have "\<bar>int (toUint8Clamp x) - int n\<bar> < 1"
    by (metis of_int_abs of_int_less_1_iff)
  then show ?thesis by simp
qed

lemma toUint8Clamp_le: "toUint8Clamp x \<le> 255"
proof -
  define f where "f = \<lfloor>x\<rfloor>"
  have f: "of_int f \<le> x" "x < of_int f + 1"
    using floor_correct[of x] by (simp_all add: f_def)
  have "x < 255 \<Longrightarrow> f < 255"
  proof -
    assume "x < 255"
    then have "(of_int f :: rat) < of_int 255" using f(1) by simp
    then show "f < 255" by (simp only: of_int_less_iff)
  qed
  then show ?thesis unfolding toUint8Clamp_def Let_def f_def[symmetric]
    by (auto simp: not_le)
qed

lemma js_round_shift:
  assumes "\<bar>e\<bar> < 7 / 2"
  shows "\<bar>js_round (of_int x + e) - x\<bar> \<le> 3"
proof -
  have "js_round (of_int x + e) = x + \<lfloor>e + 1 / 2\<rfloor>"
    by (simp add: js_round_def add.assoc)
  moreover have "- 3 \<le> \<lfloor>e + 1 / 2\<rfloor>"
  proof -
    have "of_int (- 3) \<le> e + 1 / 2" using assms by (simp add: abs_if split: if_splits)
    then show ?thesis by (simp only: le_floor_iff)
  qed
  moreover have "\<lfloor>e + 1 / 2\<rfloor> < 4"
  proof -
    have "e + 1 / 2 < of_int 4" using assms by (simp add: abs_if split: if_splits)
    then show ?thesis by (simp only: floor_less_iff)
  qed
  ultimately show ?thesis by linarith
qed

text \<open>
  One channel of the round trip. \<open>x\<close> is the original byte, \<open>M\<close> the largest channel and
  \<open>D\<close> the spread; \<open>P\<close> is the spread the decoder rebuilds from the stored saturation,
  \<open>f'\<close> its profile value at the stored hue and \<open>z\<close> the number it rounds.
\<close>

lemma channel_error:
  fixes P D M f f' z :: rat
  assumes x: "of_int x = M - D + D * f"
    and f': "0 \<le> f'" "f' \<le> 1"
    and z: "\<bar>z - (P * f' + M - P)\<bar> \<le> 1 / 1000"
    and D: "0 \<le> D"
    and b: "\<bar>P - D\<bar> \<le> p" "D * \<bar>f' - f\<bar> \<le> q" "p + q + 1 / 1000 < 7 / 2"
  shows "\<bar>js_round z - x\<bar> \<le> 3"
proof -
  define e where "e = (P - D) * (f' - 1) + D * (f' - f) + (z - (P * f' + M - P))"
  have eq: "z = of_int x + e"
    by (simp add: e_def x algebra_simps)
  have "\<bar>(P - D) * (f' - 1)\<bar> = \<bar>P - D\<bar> * \<bar>f' - 1\<bar>" by (rule abs_mult)
  also have "\<dots> \<le> \<bar>P - D\<bar> * 1"
    using f' by (intro mult_left_mono) (simp_all add: abs_if)
  finally have a: "\<bar>(P - D) * (f' - 1)\<bar> \<le> p" using b(1) by simp
  have "\<bar>D * (f' - f)\<bar> = D * \<bar>f' - f\<bar>" using D by (simp add: abs_mult)
  then have c: "\<bar>D * (f' - f)\<bar> \<le> q" using b(2) by simp
  have "\<bar>e\<bar> < 7 / 2" unfolding e_def using a c z b(3) by linarith
  then show ?thesis unfolding eq by (rule js_round_shift)
qed

subsection \<open>The HSV round trip: the rounding of the encoder\<close>

text \<open>
  Every number of the two conversions is below \<open>2 ^ 17\<close> in size, where one rounding
  moves a value by at most \<open>eps\<close>. The lemmas follow the operations of the source one
  by one and bound the distance to the exact value in multiples of \<open>eps\<close>.
\<close>

lemma eps_bounds: "0 < eps" "eps \<le> 1 / 10000000000"
  by (simp_all add: eps_def)

lemma fl_close:
  assumes "\<bar>x\<bar> \<le> 131072"
  shows "\<bar>fl x - x\<bar> \<le> eps"
  using fl_abs[OF assms] by (simp add: eps_def)

lemma near_mult:
  fixes a b a' b' :: rat
  assumes "\<bar>a' - a\<bar> \<le> da" "\<bar>b' - b\<bar> \<le> db" "\<bar>a'\<bar> \<le> A" "\<bar>b\<bar> \<le> B"
  shows "\<bar>a' * b' - a * b\<bar> \<le> A * db + da * B"
proof -
  have "a' * b' - a * b = a' * (b' - b) + (a' - a) * b" by (simp add: algebra_simps)
  moreover have "\<bar>a' * (b' - b)\<bar> \<le> A * db"
    unfolding abs_mult using assms by (intro mult_mono) simp_all
  moreover have "\<bar>(a' - a) * b\<bar> \<le> da * B"
    unfolding abs_mult using assms by (intro mult_mono) simp_all
  ultimately show ?thesis by linarith
qed

lemma near_div:
  fixes n d n' d' :: rat
  assumes n: "\<bar>n' - n\<bar> \<le> dn" and d: "\<bar>d' - d\<bar> \<le> dd" and k: "\<bar>n\<bar> \<le> K * d" "0 \<le> K"
    and p: "0 < d" "L \<le> d'" "0 < L"
  shows "\<bar>n' / d' - n / d\<bar> \<le> (dn + K * dd) / L"
proof -
  have d': "0 < d'" using p by linarith
  have q: "\<bar>n / d\<bar> \<le> K" using k p(1) by (simp add: abs_divide field_simps)
  have "n' / d' - n / d = ((n' - n) - n / d * (d' - d)) / d'"
    using d' p(1) by (simp add: field_simps)
  then have "\<bar>n' / d' - n / d\<bar> = \<bar>(n' - n) - n / d * (d' - d)\<bar> / d'"
    using d' by (simp add: abs_divide)
  moreover have "\<bar>n / d * (d' - d)\<bar> \<le> K * dd"
    unfolding abs_mult using q d k(2) by (intro mult_mono) simp_all
  then have "\<bar>(n' - n) - n / d * (d' - d)\<bar> \<le> dn + K * dd" using n by linarith
  then have "\<bar>(n' - n) - n / d * (d' - d)\<bar> / d' \<le> (dn + K * dd) / d'"
    using d' by (simp add: divide_right_mono)
  moreover have "(dn + K * dd) / d' \<le> (dn + K * dd) / L"
  proof -
    have "0 \<le> dn" "0 \<le> dd" using n d by linarith+
    then have "0 \<le> dn + K * dd" using k(2) by simp
    then show ?thesis using p by (intro divide_left_mono) simp_all
  qed
  ultimately show ?thesis by linarith
qed

lemma quot_close:
  fixes n d n' d' :: rat
  assumes n: "\<bar>n' - n\<bar> \<le> 3 * eps" and d: "\<bar>d' - d\<bar> \<le> 3 * eps"
    and k: "\<bar>n\<bar> \<le> d" "1 / 255 \<le> d"
  shows "\<bar>fl (n' / d') - n / d\<bar> \<le> 1537 * eps"
proof -
  have L: "1 / 256 \<le> d'" using d k(2) eps_bounds by linarith
  have dpos: "0 < d" using k(2) by simp
  have "\<bar>n' / d' - n / d\<bar> \<le> (3 * eps + 1 * (3 * eps)) / (1 / 256)"
    by (rule near_div[OF n d _ _ dpos L]) (use k in simp_all)
  then have e: "\<bar>n' / d' - n / d\<bar> \<le> 1536 * eps" by simp
  have "\<bar>n / d\<bar> \<le> 1" using k dpos by (simp add: abs_divide)
  then have "\<bar>n' / d'\<bar> \<le> 131072" using e eps_bounds by linarith
  then have "\<bar>fl (n' / d') - n' / d'\<bar> \<le> eps" by (rule fl_close)
  then show ?thesis using e by linarith
qed

lemma byte_fl_close:
  assumes "n \<le> 255"
  shows "\<bar>fl (of_nat n / 255) - of_nat n / 255\<bar> \<le> eps"
proof -
  have "(of_nat n :: rat) \<le> of_nat 255" using assms by (simp only: of_nat_le_iff)
  then have "\<bar>of_nat n / 255 :: rat\<bar> \<le> 131072" by simp
  then show ?thesis by (rule fl_close)
qed

lemma byte_fl_less:
  assumes "a < b" "b \<le> 255"
  shows "fl (of_nat a / 255) < fl (of_nat b / 255)"
proof -
  have "a + 1 \<le> b" using assms by simp
  then have "(of_nat (a + 1) :: rat) \<le> of_nat b" by (simp only: of_nat_le_iff)
  then have "(of_nat a :: rat) / 255 + 1 / 255 \<le> of_nat b / 255" by simp
  moreover have "a \<le> 255" using assms by simp
  ultimately show ?thesis
    using byte_fl_close[OF assms(2)] byte_fl_close[of a] eps_bounds by linarith
qed

lemma byte_fl_le:
  assumes "a \<le> b" "b \<le> 255"
  shows "fl (of_nat a / 255) \<le> fl (of_nat b / 255)"
  using byte_fl_less[of a b] assms by (cases "a = b") simp_all

lemma byte_fl_eq_iff:
  assumes "a \<le> 255" "b \<le> 255"
  shows "fl (of_nat a / 255) = fl (of_nat b / 255) \<longleftrightarrow> a = b"
  using byte_fl_less[of a b] byte_fl_less[of b a] assms
  by (cases a b rule: linorder_cases) simp_all

lemma byte_fl_max:
  assumes "a \<le> 255" "b \<le> 255"
  shows "max (fl (of_nat a / 255)) (fl (of_nat b / 255)) = fl (of_nat (max a b) / 255)"
  using byte_fl_le[of a b] byte_fl_le[of b a] assms
  by (cases "a \<le> b") (simp_all add: max_def)

lemma byte_fl_min:
  assumes "a \<le> 255" "b \<le> 255"
  shows "min (fl (of_nat a / 255)) (fl (of_nat b / 255)) = fl (of_nat (min a b) / 255)"
  using byte_fl_le[of a b] byte_fl_le[of b a] assms
  by (cases "a \<le> b") (simp_all add: min_def)

lemma byte_max:
  "max (of_nat a / 255) (of_nat b / 255) = (of_nat (max a b) / 255 :: rat)"
  "min (of_nat a / 255) (of_nat b / 255) = (of_nat (min a b) / 255 :: rat)"
  by (simp_all add: max_def min_def)

lemma rgbHsv_hue_eq:
  assumes "mx = max r (max g b)" "mn = min r (min g b)" "d = fl (mx - mn)"
  shows "rgbHsv_hue r g b =
     (if d \<noteq> 0 then
        (if mx = r then fl (60 * js_rem (fl (fl (g - b) / d)) 6)
         else if mx = g then fl (60 * fl (fl (fl (b - r) / d) + 2))
         else fl (60 * fl (fl (fl (r - g) / d) + 4)))
      else 0)"
  by (simp only: assms rgbHsv_hue_def Let_def)

lemma hue_eq:
  assumes "mx = max r (max g b)" "mn = min r (min g b)" "d = mx - mn"
  shows "hue r g b =
     (if d \<noteq> 0 then
        (if mx = r then 60 * js_rem ((g - b) / d) 6
         else if mx = g then 60 * ((b - r) / d + 2)
         else 60 * ((r - g) / d + 4))
      else 0)"
  by (simp only: assms hue_def Let_def)

text \<open>
  The hue the encoder computes for three bytes is within \<open>92281 * eps\<close> of the exact
  hue of the three fractions, unless red is largest and green is below blue.
\<close>

lemma rgbHsv_hue_close:
  fixes R G B :: nat
  assumes bytes: "R \<le> 255" "G \<le> 255" "B \<le> 255"
    and nonneg: "\<not> (G < B \<and> B \<le> R)"
  shows "\<bar>rgbHsv_hue (fl (of_nat R / 255)) (fl (of_nat G / 255)) (fl (of_nat B / 255))
          - hue (of_nat R / 255) (of_nat G / 255) (of_nat B / 255)\<bar> \<le> 92281 * eps"
proof -
  define r g b :: rat where "r = of_nat R / 255" and "g = of_nat G / 255" and "b = of_nat B / 255"
  define r' g' b' where "r' = fl r" and "g' = fl g" and "b' = fl b"
  define Mx Mn where "Mx = max R (max G B)" and "Mn = min R (min G B)"
  define mx mn :: rat where "mx = of_nat Mx / 255" and "mn = of_nat Mn / 255"
  define mx' mn' where "mx' = fl mx" and "mn' = fl mn"
  define d d' where "d = mx - mn" and "d' = fl (mx' - mn')"
  have M: "Mn \<le> Mx" "Mx \<le> 255" "Mn \<le> 255"
    using bytes by (simp_all add: Mx_def Mn_def min_def max_def)
  have ord: "Mn \<le> R" "R \<le> Mx" "Mn \<le> G" "G \<le> Mx" "Mn \<le> B" "B \<le> Mx"
    by (simp_all add: Mx_def Mn_def)
  have ordr: "mn \<le> r" "r \<le> mx" "mn \<le> g" "g \<le> mx" "mn \<le> b" "b \<le> mx"
    using ord by (simp_all add: mx_def mn_def r_def g_def b_def divide_right_mono)
  have emx': "mx' = max r' (max g' b')"
    using bytes by (simp add: mx'_def mx_def Mx_def r'_def g'_def b'_def r_def g_def b_def byte_fl_max)
  have emn': "mn' = min r' (min g' b')"
    using bytes by (simp add: mn'_def mn_def Mn_def r'_def g'_def b'_def r_def g_def b_def byte_fl_min)
  have emx: "mx = max r (max g b)"
    by (simp add: mx_def Mx_def r_def g_def b_def byte_max)
  have emn: "mn = min r (min g b)"
    by (simp add: mn_def Mn_def r_def g_def b_def byte_max)
  note fh = rgbHsv_hue_eq[OF emx' emn' d'_def]
  note eh = hue_eq[OF emx emn d_def]
  have cl: "\<bar>r' - r\<bar> \<le> eps" "\<bar>g' - g\<bar> \<le> eps" "\<bar>b' - b\<bar> \<le> eps"
    "\<bar>mx' - mx\<bar> \<le> eps" "\<bar>mn' - mn\<bar> \<le> eps"
    using bytes M by (simp_all add: r'_def g'_def b'_def r_def g_def b_def mx'_def mn'_def
        mx_def mn_def byte_fl_close)
  have unit: "0 \<le> mn" "mx \<le> 1"
    using M by (simp_all add: mx_def mn_def)
  show ?thesis
  proof (cases "Mx = Mn")
    case True
    then have "d' = 0" "d = 0" by (simp_all add: d'_def d_def mx'_def mn'_def mx_def mn_def fl_0)
    then show ?thesis
      unfolding r_def[symmetric] g_def[symmetric] b_def[symmetric]
        r'_def[symmetric] g'_def[symmetric] b'_def[symmetric] fh eh
      using eps_bounds by simp
  next
    case False
    then have "Mn + 1 \<le> Mx" using M by simp
    then have "(of_nat (Mn + 1) :: rat) \<le> of_nat Mx" by (simp only: of_nat_le_iff)
    then have dlow: "1 / 255 \<le> d" by (simp add: d_def mx_def mn_def field_simps)
    have d0: "d \<noteq> 0" using dlow by auto
    have "\<bar>mx' - mn'\<bar> \<le> 131072" using cl unit ordr eps_bounds by linarith
    then have "\<bar>d' - (mx' - mn')\<bar> \<le> eps" unfolding d'_def by (rule fl_close)
    then have dd: "\<bar>d' - d\<bar> \<le> 3 * eps" using cl unfolding d_def by linarith
    have d'pos: "0 < d'" using dd dlow eps_bounds by linarith
    then have d'0: "d' \<noteq> 0" by simp
    have eqR: "mx' = r' \<longleftrightarrow> R = Mx" "mx' = g' \<longleftrightarrow> G = Mx"
      using bytes M by (auto simp: mx'_def mx_def r'_def r_def g'_def g_def byte_fl_eq_iff)
    have eqE: "mx = r \<longleftrightarrow> R = Mx" "mx = g \<longleftrightarrow> G = Mx"
      by (auto simp: mx_def r_def g_def)
    have step: "\<bar>fl (fl (x' - y') / d') - (x - y) / d\<bar> \<le> 1537 * eps"
      if "\<bar>x' - x\<bar> \<le> eps" "\<bar>y' - y\<bar> \<le> eps" "mn \<le> x" "x \<le> mx" "mn \<le> y" "y \<le> mx"
      for x y x' y' :: rat
    proof -
      have "\<bar>x' - y'\<bar> \<le> 131072" using that unit eps_bounds by linarith
      then have "\<bar>fl (x' - y') - (x' - y')\<bar> \<le> eps" by (rule fl_close)
      then have n: "\<bar>fl (x' - y') - (x - y)\<bar> \<le> 3 * eps" using that by linarith
      have k: "\<bar>x - y\<bar> \<le> d" using that unfolding d_def by linarith
      show ?thesis by (rule quot_close[OF n dd k dlow])
    qed
    have qrange: "\<bar>(x - y) / d\<bar> \<le> 1"
      if "mn \<le> x" "x \<le> mx" "mn \<le> y" "y \<le> mx" for x y :: rat
    proof -
      have "\<bar>x - y\<bar> \<le> d" using that unfolding d_def by linarith
      then show ?thesis using dlow by (simp add: abs_divide)
    qed
    consider (rmax) "R = Mx" | (gmax) "R \<noteq> Mx" "G = Mx" | (bmax) "R \<noteq> Mx" "G \<noteq> Mx"
      by blast
    then show ?thesis
    proof cases
      case rmax
      have BG: "B \<le> G" using nonneg rmax ord by simp
      define q q' where "q = (g - b) / d" and "q' = fl (fl (g' - b') / d')"
      have qq: "\<bar>q' - q\<bar> \<le> 1537 * eps"
        unfolding q_def q'_def by (rule step[OF cl(2,3) ordr(3,4,5,6)])
      have "b \<le> g" using BG by (simp add: b_def g_def divide_right_mono)
      then have q0: "0 \<le> q" using dlow by (simp add: q_def)
      have q1: "\<bar>q\<bar> \<le> 1" unfolding q_def by (rule qrange[OF ordr(3,4,5,6)])
      have "b' \<le> g'" using BG bytes by (simp add: b'_def g'_def b_def g_def byte_fl_le)
      then have "0 \<le> fl (g' - b')" by (intro fl_nonneg) simp
      then have "0 \<le> fl (g' - b') / d'" using d'pos by simp
      then have q'0: "0 \<le> q'" unfolding q'_def by (rule fl_nonneg)
      have q'6: "q' < 6" using qq q1 eps_bounds by linarith
      have q6: "q < 6" using q1 by linarith
      have f: "rgbHsv_hue r' g' b' = fl (60 * q')"
        unfolding fh using d'0 rmax eqR by (simp add: q'_def[symmetric] js_rem_6_small[OF q'0 q'6])
      have e: "hue r g b = 60 * q"
        unfolding eh using d0 rmax eqE by (simp add: q_def[symmetric] js_rem_6_small[OF q0 q6])
      have "\<bar>60 * q'\<bar> \<le> 131072" using q'0 q'6 by linarith
      then have "\<bar>fl (60 * q') - 60 * q'\<bar> \<le> eps" by (rule fl_close)
      then have "\<bar>rgbHsv_hue r' g' b' - hue r g b\<bar> \<le> 92281 * eps"
        unfolding f e using qq by linarith
      then show ?thesis by (simp only: r'_def g'_def b'_def r_def g_def b_def)
    next
      case gmax
      define q q' where "q = (b - r) / d" and "q' = fl (fl (b' - r') / d')"
      have qq: "\<bar>q' - q\<bar> \<le> 1537 * eps"
        unfolding q_def q'_def by (rule step[OF cl(3,1) ordr(5,6,1,2)])
      have q1: "\<bar>q\<bar> \<le> 1" unfolding q_def by (rule qrange[OF ordr(5,6,1,2)])
      have f: "rgbHsv_hue r' g' b' = fl (60 * fl (q' + 2))"
        unfolding fh using d'0 gmax eqR by (simp add: q'_def[symmetric])
      have e: "hue r g b = 60 * q + 120"
        unfolding eh using d0 gmax eqE by (simp add: q_def[symmetric])
      have "\<bar>q' + 2\<bar> \<le> 131072" using qq q1 eps_bounds by linarith
      then have "\<bar>fl (q' + 2) - (q' + 2)\<bar> \<le> eps" by (rule fl_close)
      then have t: "\<bar>fl (q' + 2) - (q + 2)\<bar> \<le> 1538 * eps" using qq by linarith
      then have "\<bar>60 * fl (q' + 2)\<bar> \<le> 131072" using q1 eps_bounds by linarith
      then have "\<bar>fl (60 * fl (q' + 2)) - 60 * fl (q' + 2)\<bar> \<le> eps" by (rule fl_close)
      then have "\<bar>rgbHsv_hue r' g' b' - hue r g b\<bar> \<le> 92281 * eps"
        unfolding f e using t by linarith
      then show ?thesis by (simp only: r'_def g'_def b'_def r_def g_def b_def)
    next
      case bmax
      define q q' where "q = (r - g) / d" and "q' = fl (fl (r' - g') / d')"
      have qq: "\<bar>q' - q\<bar> \<le> 1537 * eps"
        unfolding q_def q'_def by (rule step[OF cl(1,2) ordr(1,2,3,4)])
      have q1: "\<bar>q\<bar> \<le> 1" unfolding q_def by (rule qrange[OF ordr(1,2,3,4)])
      have f: "rgbHsv_hue r' g' b' = fl (60 * fl (q' + 4))"
        unfolding fh using d'0 bmax eqR by (simp add: q'_def[symmetric])
      have e: "hue r g b = 60 * q + 240"
        unfolding eh using d0 bmax eqE by (simp add: q_def[symmetric])
      have "\<bar>q' + 4\<bar> \<le> 131072" using qq q1 eps_bounds by linarith
      then have "\<bar>fl (q' + 4) - (q' + 4)\<bar> \<le> eps" by (rule fl_close)
      then have t: "\<bar>fl (q' + 4) - (q + 4)\<bar> \<le> 1538 * eps" using qq by linarith
      then have "\<bar>60 * fl (q' + 4)\<bar> \<le> 131072" using q1 eps_bounds by linarith
      then have "\<bar>fl (60 * fl (q' + 4)) - 60 * fl (q' + 4)\<bar> \<le> eps" by (rule fl_close)
      then have "\<bar>rgbHsv_hue r' g' b' - hue r g b\<bar> \<le> 92281 * eps"
        unfolding f e using t by linarith
      then show ?thesis by (simp only: r'_def g'_def b'_def r_def g_def b_def)
    qed
  qed
qed

text \<open>
  The three numbers the encoder stores, before the store rounds them to bytes, are
  within \<open>391936 * eps\<close> of the exact scaled hue, saturation and value.
\<close>

lemma rgbHsv_pixel_close:
  fixes R G B A Mx Mn :: nat
  assumes bytes: "R \<le> 255" "G \<le> 255" "B \<le> 255"
    and nonneg: "\<not> (G < B \<and> B \<le> R)"
    and Mx: "Mx = max R (max G B)" and Mn: "Mn = min R (min G B)"
  shows "\<exists>ph ps pv.
     rgbHsv_pixel (RGBA R G B A) = RGBA (toUint8Clamp ph) (toUint8Clamp ps) (toUint8Clamp pv) A
     \<and> \<bar>ph - hue (of_nat R / 255) (of_nat G / 255) (of_nat B / 255) * 255 / 360\<bar> \<le> 65367 * eps
     \<and> \<bar>ps - (if Mx = 0 then 0 else (of_nat Mx - of_nat Mn) / of_nat Mx * 255)\<bar> \<le> 391936 * eps
     \<and> \<bar>pv - of_nat Mx\<bar> \<le> 256 * eps"
proof -
  define r g b :: rat where "r = of_nat R / 255" and "g = of_nat G / 255" and "b = of_nat B / 255"
  define r' g' b' where "r' = fl r" and "g' = fl g" and "b' = fl b"
  define mx mn :: rat where "mx = of_nat Mx / 255" and "mn = of_nat Mn / 255"
  define mx' mn' where "mx' = fl mx" and "mn' = fl mn"
  define d d' where "d = mx - mn" and "d' = fl (mx' - mn')"
  define h h' where "h = hue r g b" and "h' = rgbHsv_hue r' g' b'"
  define s' where "s' = (if mx' = 0 then 0 else fl (d' / mx'))"
  define ph ps pv where "ph = fl (fl (h' * 255) / 360)" and "ps = fl (s' * 255)"
    and "pv = fl (mx' * 255)"
  have M: "Mn \<le> Mx" "Mx \<le> 255" "Mn \<le> 255"
    using bytes by (simp_all add: Mx Mn min_def max_def)
  have emx': "max r' (max g' b') = mx'"
    using bytes by (simp add: mx'_def mx_def Mx r'_def g'_def b'_def r_def g_def b_def byte_fl_max)
  have emn': "min r' (min g' b') = mn'"
    using bytes by (simp add: mn'_def mn_def Mn r'_def g'_def b'_def r_def g_def b_def byte_fl_min)
  have px: "rgbHsv_pixel (RGBA R G B A) = RGBA (toUint8Clamp ph) (toUint8Clamp ps) (toUint8Clamp pv) A"
    unfolding rgbHsv_pixel_def Let_def pixel.sel r_def[symmetric] g_def[symmetric] b_def[symmetric]
      r'_def[symmetric] g'_def[symmetric] b'_def[symmetric] emx' emn'
    by (simp only: ph_def ps_def pv_def s'_def h'_def d'_def)
  have cl: "\<bar>mx' - mx\<bar> \<le> eps" "\<bar>mn' - mn\<bar> \<le> eps"
    using M by (simp_all add: mx'_def mn'_def mx_def mn_def byte_fl_close)
  have unit: "0 \<le> mn" "mn \<le> mx" "mx \<le> 1"
    using M by (simp_all add: mx_def mn_def divide_right_mono)
  have "\<not> (g < b \<and> g \<le> r \<and> b \<le> r)"
    using nonneg by (simp add: r_def g_def b_def)
  from hue_tent[OF this] have hr: "0 \<le> h" "h < 300" by (simp_all add: h_def)
  have hh: "\<bar>h' - h\<bar> \<le> 92281 * eps"
    unfolding h'_def h_def r'_def g'_def b'_def r_def g_def b_def
    by (rule rgbHsv_hue_close[OF bytes nonneg])
  have "\<bar>h' * 255\<bar> \<le> 131072" using hh hr eps_bounds by linarith
  then have "\<bar>fl (h' * 255) - h' * 255\<bar> \<le> eps" by (rule fl_close)
  then have h1: "\<bar>fl (h' * 255) - h * 255\<bar> \<le> 23531656 * eps" using hh by linarith
  then have "\<bar>fl (h' * 255) / 360\<bar> \<le> 131072" using hr eps_bounds by linarith
  then have "\<bar>ph - fl (h' * 255) / 360\<bar> \<le> eps" unfolding ph_def by (rule fl_close)
  then have eh: "\<bar>ph - h * 255 / 360\<bar> \<le> 65367 * eps" using h1 eps_bounds by linarith
  have "\<bar>mx' * 255\<bar> \<le> 131072" using cl unit eps_bounds by linarith
  then have "\<bar>pv - mx' * 255\<bar> \<le> eps" unfolding pv_def by (rule fl_close)
  then have "\<bar>pv - mx * 255\<bar> \<le> 256 * eps" using cl by linarith
  then have ev: "\<bar>pv - of_nat Mx\<bar> \<le> 256 * eps" by (simp add: mx_def)
  have es: "\<bar>ps - (if Mx = 0 then 0 else (of_nat Mx - of_nat Mn) / of_nat Mx * 255)\<bar> \<le> 391936 * eps"
  proof (cases "Mx = 0")
    case True
    then have "mx' = 0" by (simp add: mx'_def mx_def fl_0)
    then have "ps = 0" by (simp add: ps_def s'_def fl_0)
    then show ?thesis using True eps_bounds by simp
  next
    case False
    then have "1 \<le> Mx" by simp
    then have "(of_nat 1 :: rat) \<le> of_nat Mx" by (simp only: of_nat_le_iff)
    then have mlow: "1 / 255 \<le> mx" by (simp add: mx_def)
    then have "0 < mx'" using cl eps_bounds by linarith
    then have s: "s' = fl (d' / mx')" by (simp add: s'_def)
    have "\<bar>mx' - mn'\<bar> \<le> 131072" using cl unit eps_bounds by linarith
    then have "\<bar>d' - (mx' - mn')\<bar> \<le> eps" unfolding d'_def by (rule fl_close)
    then have dd: "\<bar>d' - d\<bar> \<le> 3 * eps" using cl unfolding d_def by linarith
    have m3: "\<bar>mx' - mx\<bar> \<le> 3 * eps" using cl eps_bounds by linarith
    have k: "\<bar>d\<bar> \<le> mx" using unit unfolding d_def by linarith
    define sat where "sat = d / mx"
    have q: "\<bar>s' - sat\<bar> \<le> 1537 * eps"
      unfolding s sat_def by (rule quot_close[OF dd m3 k mlow])
    have "0 \<le> d" using unit by (simp add: d_def)
    then have "0 \<le> sat" "sat \<le> 1" using k mlow by (simp_all add: sat_def)
    then have "\<bar>s' * 255\<bar> \<le> 131072" using q eps_bounds by linarith
    then have "\<bar>ps - s' * 255\<bar> \<le> eps" unfolding ps_def by (rule fl_close)
    then have "\<bar>ps - sat * 255\<bar> \<le> 391936 * eps" using q by linarith
    moreover have "sat = (of_nat Mx - of_nat Mn) / of_nat Mx"
      using False by (simp add: sat_def d_def mx_def mn_def field_simps)
    ultimately show ?thesis using False by simp
  qed
  show ?thesis
    using px eh ev es unfolding h_def r_def g_def b_def by blast
qed

subsection \<open>The HSV round trip: the rounding of the decoder\<close>

lemma decode_channel:
  fixes comp c c' T T' m m' :: rat
  assumes comp: "\<bar>comp - c' * T'\<bar> \<le> 7 * eps"
    and c: "\<bar>c' - c\<bar> \<le> 4 * eps" "0 \<le> c" "c \<le> 1"
    and T: "\<bar>T' - T\<bar> \<le> 7 * eps" "0 \<le> T" "T \<le> 1"
    and m: "\<bar>m' - m\<bar> \<le> 6 * eps" "\<bar>m\<bar> \<le> 1"
  shows "\<bar>fl (fl (comp + m') * 255) - 255 * (c * T + m)\<bar> \<le> 8161 * eps"
proof -
  define p p' where "p = c * T" and "p' = c' * T'"
  have c2: "\<bar>c'\<bar> \<le> 2" using c eps_bounds by linarith
  have T1: "\<bar>T\<bar> \<le> 1" using T by linarith
  have "\<bar>c' * T' - c * T\<bar> \<le> 2 * (7 * eps) + 4 * eps * 1"
    by (rule near_mult[OF c(1) T(1) c2 T1])
  then have pp: "\<bar>p' - p\<bar> \<le> 18 * eps" by (simp add: p_def p'_def)
  have "0 \<le> p" "p \<le> 1 * 1" unfolding p_def using c T by (simp, intro mult_mono, simp_all)
  then have pr: "0 \<le> p" "p \<le> 1" by simp_all
  have cp: "\<bar>comp - p'\<bar> \<le> 7 * eps" using comp by (simp add: p'_def)
  have "\<bar>comp + m'\<bar> \<le> 131072" using cp pp pr m eps_bounds by linarith
  then have "\<bar>fl (comp + m') - (comp + m')\<bar> \<le> eps" by (rule fl_close)
  then have w: "\<bar>fl (comp + m') - (p + m)\<bar> \<le> 32 * eps" using cp pp m by linarith
  then have "\<bar>fl (comp + m') * 255\<bar> \<le> 131072" using pr m eps_bounds by linarith
  then have "\<bar>fl (fl (comp + m') * 255) - fl (comp + m') * 255\<bar> \<le> eps" by (rule fl_close)
  then have "\<bar>fl (fl (comp + m') * 255) - (255 * p + 255 * m)\<bar> \<le> 8161 * eps" using w by linarith
  then show ?thesis by (simp add: p_def algebra_simps)
qed

text \<open>
  For a stored hue below 255 the three numbers the decoder rounds are within
  \<open>8161 * eps\<close> of \<open>P * tent h + V - P\<close>, where \<open>h\<close> is the exact decoded hue and
  \<open>P = V * S / 255\<close>.
\<close>

lemma hsvToRgb_close:
  fixes H S V :: nat
  assumes bytes: "H \<le> 254" "S \<le> 255" "V \<le> 255"
  shows "\<exists>zr zg zb.
     hsvToRgb (of_nat H) (of_nat S) (of_nat V) = (js_round zr, js_round zg, js_round zb)
     \<and> \<bar>zr - (of_nat V * of_nat S / 255 * tentR (of_nat H / 255 * 360)
                + of_nat V - of_nat V * of_nat S / 255)\<bar> \<le> 8161 * eps
     \<and> \<bar>zg - (of_nat V * of_nat S / 255 * tentG (of_nat H / 255 * 360)
                + of_nat V - of_nat V * of_nat S / 255)\<bar> \<le> 8161 * eps
     \<and> \<bar>zb - (of_nat V * of_nat S / 255 * tentB (of_nat H / 255 * 360)
                + of_nat V - of_nat V * of_nat S / 255)\<bar> \<le> 8161 * eps"
proof -
  define h0 s v :: rat where "h0 = of_nat H / 255" and "s = of_nat S / 255" and "v = of_nat V / 255"
  define h0' s' v' where "h0' = fl h0" and "s' = fl s" and "v' = fl v"
  define hd hd' where "hd = h0 * 360" and "hd' = fl (h0' * 360)"
  define c c' where "c = v * s" and "c' = fl (v' * s')"
  define q' where "q' = fl (hd' / 60)"
  define t' where "t' = fl (js_rem q' 2 - 1)"
  define a' where "a' = fl (1 - \<bar>t'\<bar>)"
  define x' where "x' = fl (c' * a')"
  define m m' where "m = v - c" and "m' = fl (v' - c')"
  have H: "H \<le> 255" using bytes by simp
  have cl: "\<bar>h0' - h0\<bar> \<le> eps" "\<bar>s' - s\<bar> \<le> eps" "\<bar>v' - v\<bar> \<le> eps"
    using bytes H by (simp_all add: h0'_def s'_def v'_def h0_def s_def v_def byte_fl_close)
  have "(of_nat H :: rat) \<le> of_nat 254" "(of_nat S :: rat) \<le> of_nat 255"
    "(of_nat V :: rat) \<le> of_nat 255"
    using bytes by (simp_all only: of_nat_le_iff)
  then have rng: "0 \<le> h0" "h0 \<le> 254 / 255" "0 \<le> s" "s \<le> 1" "0 \<le> v" "v \<le> 1"
    by (simp_all add: h0_def s_def v_def)
  have pos: "0 \<le> h0'" "0 \<le> s'" "0 \<le> v'"
    using rng by (simp_all add: h0'_def s'_def v'_def fl_nonneg)
  have "\<bar>h0' * 360\<bar> \<le> 131072" using cl rng eps_bounds by linarith
  then have "\<bar>hd' - h0' * 360\<bar> \<le> eps" unfolding hd'_def by (rule fl_close)
  then have hh: "\<bar>hd' - hd\<bar> \<le> 361 * eps" using cl unfolding hd_def by linarith
  have hd: "0 \<le> hd" "hd \<le> 359" using rng by (simp_all add: hd_def)
  have hd'0: "0 \<le> hd'" unfolding hd'_def using pos by (intro fl_nonneg) simp
  have hd'1: "hd' < 360" using hh hd eps_bounds by linarith
  have v2: "\<bar>v'\<bar> \<le> 2" using cl rng eps_bounds by linarith
  have s1: "\<bar>s\<bar> \<le> 1" using rng by linarith
  have "\<bar>v' * s' - v * s\<bar> \<le> 2 * eps + eps * 1"
    by (rule near_mult[OF cl(3) cl(2) v2 s1])
  then have vs: "\<bar>v' * s' - c\<bar> \<le> 3 * eps" by (simp add: c_def)
  have "0 \<le> c" "c \<le> 1 * 1" unfolding c_def using rng by (simp, intro mult_mono, simp_all)
  then have cr: "0 \<le> c" "c \<le> 1" by simp_all
  have "\<bar>v' * s'\<bar> \<le> 131072" using vs cr eps_bounds by linarith
  then have "\<bar>c' - v' * s'\<bar> \<le> eps" unfolding c'_def by (rule fl_close)
  then have cc: "\<bar>c' - c\<bar> \<le> 4 * eps" using vs by linarith
  have c'0: "0 \<le> c'" unfolding c'_def using pos by (intro fl_nonneg) simp
  have c'2: "c' \<le> 2" using cc cr eps_bounds by linarith
  define u where "u = hd' / 60"
  have u: "0 \<le> u" "u < 6" using hd'0 hd'1 by (simp_all add: u_def)
  have "\<bar>u\<bar> \<le> 131072" using u by linarith
  then have qu: "\<bar>q' - u\<bar> \<le> eps" unfolding q'_def u_def by (rule fl_close)
  have q'0: "0 \<le> q'" unfolding q'_def u_def[symmetric] using u by (intro fl_nonneg)
  have "u \<le> 5999 / 1000" using hh hd eps_bounds unfolding u_def by linarith
  then have q'6: "q' < 6" using qu eps_bounds by linarith
  define T where "T = tri u"
  have triq: "0 \<le> tri q'" "tri q' \<le> 1" by (rule tri_range[OF q'0 q'6])+
  have tq: "\<bar>tri q' - T\<bar> \<le> eps"
    unfolding T_def using tri_lipschitz[OF q'0 q'6 u] qu by linarith
  define rho where "rho = js_rem q' 2 - 1"
  have rho: "tri q' = 1 - \<bar>rho\<bar>" by (simp add: tri_def rho_def)
  have "\<bar>rho\<bar> \<le> 131072" using triq rho by linarith
  then have tt: "\<bar>t' - rho\<bar> \<le> eps" unfolding t'_def rho_def by (rule fl_close)
  have "\<bar>1 - \<bar>t'\<bar>\<bar> \<le> 131072" using tt triq rho eps_bounds by linarith
  then have "\<bar>a' - (1 - \<bar>t'\<bar>)\<bar> \<le> eps" unfolding a'_def by (rule fl_close)
  then have "\<bar>a' - tri q'\<bar> \<le> 2 * eps" using tt rho by linarith
  then have aT: "\<bar>a' - T\<bar> \<le> 3 * eps" using tq by linarith
  have Tr: "0 \<le> T" "T \<le> 1" unfolding T_def by (rule tri_range[OF u])+
  have "\<bar>c' * (a' - T)\<bar> \<le> 2 * (3 * eps)"
    unfolding abs_mult using c'0 c'2 aT by (intro mult_mono) simp_all
  then have caT: "\<bar>c' * a' - c' * T\<bar> \<le> 6 * eps" by (simp add: algebra_simps)
  have "c' * T \<le> 2 * 1" using c'0 c'2 Tr by (intro mult_mono) simp_all
  moreover have "0 \<le> c' * T" using c'0 Tr by simp
  ultimately have "\<bar>c' * a'\<bar> \<le> 131072" using caT eps_bounds by linarith
  then have "\<bar>x' - c' * a'\<bar> \<le> eps" unfolding x'_def by (rule fl_close)
  then have xT: "\<bar>x' - c' * tri (hd' / 60)\<bar> \<le> 7 * eps"
    using caT unfolding T_def u_def by linarith
  obtain r1 g1 b1 where sec: "hsv_sector hd' c' x' = (r1, g1, b1)"
    by (cases "hsv_sector hd' c' x'") auto
  from hsv_sector_near[OF hd'0 hd'1 xT sec]
  have comp: "\<bar>r1 - c' * tentR hd'\<bar> \<le> 7 * eps" "\<bar>g1 - c' * tentG hd'\<bar> \<le> 7 * eps"
    "\<bar>b1 - c' * tentB hd'\<bar> \<le> 7 * eps" by simp_all
  have "\<bar>hd' - hd\<bar> / 60 \<le> 361 * eps / 60" using hh by (simp only: divide_right_mono)
  also have "\<dots> \<le> 7 * eps" using eps_bounds by simp
  finally have "\<bar>hd' - hd\<bar> / 60 \<le> 7 * eps" .
  then have lip: "\<bar>tentR hd' - tentR hd\<bar> \<le> 7 * eps" "\<bar>tentG hd' - tentG hd\<bar> \<le> 7 * eps"
    "\<bar>tentB hd' - tentB hd\<bar> \<le> 7 * eps"
    using tent_lipschitz[of hd' hd] by linarith+
  have mr: "\<bar>m\<bar> \<le> 1" using rng cr unfolding m_def by linarith
  have "\<bar>v' - c'\<bar> \<le> 131072" using cl cc rng cr eps_bounds by linarith
  then have "\<bar>m' - (v' - c')\<bar> \<le> eps" unfolding m'_def by (rule fl_close)
  then have mm: "\<bar>m' - m\<bar> \<le> 6 * eps" using cl cc unfolding m_def by linarith
  define zr zg zb where "zr = fl (fl (r1 + m') * 255)" and "zg = fl (fl (g1 + m') * 255)"
    and "zb = fl (fl (b1 + m') * 255)"
  have dec: "hsvToRgb (of_nat H) (of_nat S) (of_nat V) = (js_round zr, js_round zg, js_round zb)"
    unfolding hsvToRgb_def Let_def h0_def[symmetric] s_def[symmetric] v_def[symmetric]
      h0'_def[symmetric] s'_def[symmetric] v'_def[symmetric] hd'_def[symmetric] c'_def[symmetric]
      q'_def[symmetric] t'_def[symmetric] a'_def[symmetric] x'_def[symmetric] m'_def[symmetric] sec
    by (simp only: prod.case zr_def zg_def zb_def)
  have ex: "255 * (c * f + m) = of_nat V * of_nat S / 255 * f + of_nat V - of_nat V * of_nat S / 255"
    for f :: rat
    by (simp add: c_def m_def v_def s_def algebra_simps)
  have "\<bar>zr - 255 * (c * tentR hd + m)\<bar> \<le> 8161 * eps"
    unfolding zr_def by (rule decode_channel[OF comp(1) cc cr lip(1) tent_range(1,2) mm mr])
  moreover have "\<bar>zg - 255 * (c * tentG hd + m)\<bar> \<le> 8161 * eps"
    unfolding zg_def by (rule decode_channel[OF comp(2) cc cr lip(2) tent_range(3,4) mm mr])
  moreover have "\<bar>zb - 255 * (c * tentB hd + m)\<bar> \<le> 8161 * eps"
    unfolding zb_def by (rule decode_channel[OF comp(3) cc cr lip(3) tent_range(5,6) mm mr])
  ultimately show ?thesis
    using dec unfolding ex hd_def h0_def by blast
qed

text \<open>
  Without a sector the decoder rounds \<open>m * 255\<close> alone. For stored bytes the exact value
  of that product is a multiple of \<open>1 / 255\<close>, at least \<open>1 / 510\<close> away from the next
  half, which is much further than the rounding of the three operations can move it.
\<close>

lemma decode_value_close:
  fixes S V :: nat
  assumes bytes: "S \<le> 255" "V \<le> 255"
  shows "\<bar>fl (fl (fl (of_nat V / 255) - fl (fl (of_nat V / 255) * fl (of_nat S / 255))) * 255)
          - (of_nat V / 255 - of_nat V / 255 * (of_nat S / 255)) * 255\<bar> \<le> 1531 * eps"
proof -
  define s v :: rat where "s = of_nat S / 255" and "v = of_nat V / 255"
  define s' v' where "s' = fl s" and "v' = fl v"
  define c c' where "c = v * s" and "c' = fl (v' * s')"
  define m m' where "m = v - c" and "m' = fl (v' - c')"
  have cl: "\<bar>s' - s\<bar> \<le> eps" "\<bar>v' - v\<bar> \<le> eps"
    using bytes by (simp_all add: s'_def v'_def s_def v_def byte_fl_close)
  have "(of_nat S :: rat) \<le> of_nat 255" "(of_nat V :: rat) \<le> of_nat 255"
    using bytes by (simp_all only: of_nat_le_iff)
  then have rng: "0 \<le> s" "s \<le> 1" "0 \<le> v" "v \<le> 1"
    by (simp_all add: s_def v_def)
  have v2: "\<bar>v'\<bar> \<le> 2" using cl rng eps_bounds by linarith
  have s1: "\<bar>s\<bar> \<le> 1" using rng by linarith
  have "\<bar>v' * s' - v * s\<bar> \<le> 2 * eps + eps * 1"
    by (rule near_mult[OF cl(2) cl(1) v2 s1])
  then have vs: "\<bar>v' * s' - c\<bar> \<le> 3 * eps" by (simp add: c_def)
  have "0 \<le> c" "c \<le> 1 * 1" unfolding c_def using rng by (simp, intro mult_mono, simp_all)
  then have cr: "0 \<le> c" "c \<le> 1" by simp_all
  have "\<bar>v' * s'\<bar> \<le> 131072" using vs cr eps_bounds by linarith
  then have "\<bar>c' - v' * s'\<bar> \<le> eps" unfolding c'_def by (rule fl_close)
  then have cc: "\<bar>c' - c\<bar> \<le> 4 * eps" using vs by linarith
  have "\<bar>v' - c'\<bar> \<le> 131072" using cl cc rng cr eps_bounds by linarith
  then have "\<bar>m' - (v' - c')\<bar> \<le> eps" unfolding m'_def by (rule fl_close)
  then have mm: "\<bar>m' - m\<bar> \<le> 6 * eps" using cl cc unfolding m_def by linarith
  have mr: "\<bar>m\<bar> \<le> 1" using rng cr unfolding m_def by linarith
  have "\<bar>m' * 255\<bar> \<le> 131072" using mm mr eps_bounds by linarith
  then have "\<bar>fl (m' * 255) - m' * 255\<bar> \<le> eps" by (rule fl_close)
  then have "\<bar>fl (m' * 255) - m * 255\<bar> \<le> 1531 * eps" using mm by linarith
  then show ?thesis
    by (simp only: m'_def c'_def v'_def s'_def m_def c_def v_def s_def)
qed

lemma js_round_255:
  fixes a :: int and z :: rat
  assumes "\<bar>z - of_int a / 255\<bar> \<le> 1 / 1000"
  shows "js_round z = js_round (of_int a / 255)"
proof -
  define n j where "n = (2 * a + 255) div 510" and "j = (2 * a + 255) mod 510"
  have d: "2 * a + 255 = 510 * n + j" by (simp add: n_def j_def)
  have "j \<noteq> 0" unfolding j_def by presburger
  moreover have "0 \<le> j" "j < 510" by (simp_all add: j_def)
  ultimately have j: "1 \<le> j" "j \<le> 509" by linarith+
  have "(of_int (2 * a + 255) :: rat) = of_int (510 * n + j)" by (simp only: d)
  then have e: "(of_int a :: rat) / 255 + 1 / 2 = of_int n + of_int j / 510" by simp
  have "(of_int 1 :: rat) \<le> of_int j" "(of_int j :: rat) \<le> of_int 509"
    using j by (simp_all only: of_int_le_iff)
  then have jr: "(1::rat) \<le> of_int j" "(of_int j :: rat) \<le> 509" by simp_all
  have "\<lfloor>of_int a / 255 + 1 / 2 :: rat\<rfloor> = n"
    by (rule floor_unique) (use e jr in linarith)+
  moreover have "\<lfloor>z + 1 / 2\<rfloor> = n"
    by (rule floor_unique) (use e jr assms in linarith)+
  ultimately show ?thesis by (simp add: js_round_def)
qed

lemma fl_1: "fl 1 = 1"
  using fl_of_int[of 1] by simp

lemma fl_360: "fl 360 = 360"
  using fl_of_int[of 360] by simp

lemma hsvToRgb_example: "hsvToRgb 255 255 255 = (0, 0, 0)"
  by code_simp

text \<open>
  C10. A stored hue of 255 decodes to exactly 360 degrees, which lies in none of the six
  sectors: the decoder returns the achromatic triple made of \<open>m = v/255 - (v/255)(s/255)\<close>,
  each operation rounded as the code computes it. For bytes \<open>s\<close> and \<open>v\<close> the triple is
  the one that exact arithmetic gives, and \<open>hsvToRgb(255, 255, 255)\<close> is (0, 0, 0).
\<close>

theorem hsvToRgb_hue_255:
  "hsvToRgb 255 s v =
     (js_round (fl (fl (fl (v / 255) - fl (fl (v / 255) * fl (s / 255))) * 255)),
      js_round (fl (fl (fl (v / 255) - fl (fl (v / 255) * fl (s / 255))) * 255)),
      js_round (fl (fl (fl (v / 255) - fl (fl (v / 255) * fl (s / 255))) * 255)))
   \<and> (S \<le> 255 \<and> V \<le> 255 \<longrightarrow>
        hsvToRgb 255 (of_nat S) (of_nat V) =
          (js_round ((of_nat V / 255 - of_nat V / 255 * (of_nat S / 255)) * 255),
           js_round ((of_nat V / 255 - of_nat V / 255 * (of_nat S / 255)) * 255),
           js_round ((of_nat V / 255 - of_nat V / 255 * (of_nat S / 255)) * 255)))
   \<and> hsvToRgb 255 255 255 = (0, 0, 0)"
proof -
  have g: "hsvToRgb 255 s v =
     (js_round (fl (fl (fl (v / 255) - fl (fl (v / 255) * fl (s / 255))) * 255)),
      js_round (fl (fl (fl (v / 255) - fl (fl (v / 255) * fl (s / 255))) * 255)),
      js_round (fl (fl (fl (v / 255) - fl (fl (v / 255) * fl (s / 255))) * 255)))" for s v
    by (simp add: hsvToRgb_def hsv_sector_def Let_def fl_1 fl_360 fl_idem)
  have b: "js_round (fl (fl (fl (of_nat V / 255) - fl (fl (of_nat V / 255) * fl (of_nat S / 255))) * 255))
      = js_round ((of_nat V / 255 - of_nat V / 255 * (of_nat S / 255)) * 255)"
    if "S \<le> 255 \<and> V \<le> 255"
  proof -
    have bytes: "S \<le> 255" "V \<le> 255" using that by simp_all
    define a where "a = int V * (255 - int S)"
    have x: "(of_nat V / 255 - of_nat V / 255 * (of_nat S / 255)) * 255 = (of_int a :: rat) / 255"
      by (simp add: a_def field_simps)
    have "\<bar>fl (fl (fl (of_nat V / 255) - fl (fl (of_nat V / 255) * fl (of_nat S / 255))) * 255)
          - of_int a / 255\<bar> \<le> 1 / 1000"
      using decode_value_close[OF bytes] eps_bounds unfolding x by linarith
    then show ?thesis unfolding x by (rule js_round_255)
  qed
  show ?thesis
    using g[of s v] hsvToRgb_example by (intro conjI impI) (simp_all add: g b)
qed

theorem hsvToRgb_hue_255_witness:
  "(100::nat) \<le> 255 \<and> (200::nat) \<le> 255
   \<and> hsvToRgb 255 (of_nat 100) (of_nat 200) =
        (js_round ((of_nat 200 / 255 - of_nat 200 / 255 * (of_nat 100 / 255)) * 255),
         js_round ((of_nat 200 / 255 - of_nat 200 / 255 * (of_nat 100 / 255)) * 255),
         js_round ((of_nat 200 / 255 - of_nat 200 / 255 * (of_nat 100 / 255)) * 255))
   \<and> js_round ((of_nat 200 / 255 - of_nat 200 / 255 * (of_nat 100 / 255)) * 255) = 122"
proof -
  have "js_round ((of_nat 200 / 255 - of_nat 200 / 255 * (of_nat 100 / 255)) * 255) = 122"
    by code_simp
  then show ?thesis
    using hsvToRgb_hue_255 [of 0 0 100 200] by simp
qed

subsection \<open>The HSV round trip: the bound\<close>

lemma hsv_roundtrip_example: "hsv_roundtrip (RGBA 0 3 234 255) = (0, 6, 234)"
  by code_simp

lemma hsv_roundtrip_example2: "hsv_roundtrip (RGBA 255 0 255 255) = (255, 0, 0)"
  by code_simp

text \<open>
  C1 (as amended). For every RGB triple with channels in 0..255 whose hue the encoder
  computes as non-negative (that is, unless red is the largest channel and green is
  below blue), decoding the stored HSV bytes gives back every channel within 3.
\<close>

theorem hsv_roundtrip_within_3:
  assumes bounds: "R \<le> 255" "G \<le> 255" "B \<le> 255"
    and hue: "\<not> (G < B \<and> B \<le> R)"
    and rt: "hsv_roundtrip (RGBA R G B A) = (r', g', b')"
  shows "\<bar>r' - int R\<bar> \<le> 3 \<and> \<bar>g' - int G\<bar> \<le> 3 \<and> \<bar>b' - int B\<bar> \<le> 3"
proof -
  define Mx Mn where "Mx = max R (max G B)" and "Mn = min R (min G B)"
  define M D :: rat where "M = of_nat Mx" and "D = of_nat Mx - of_nat Mn"
  define r g b :: rat where "r = of_nat R / 255" and "g = of_nat G / 255" and "b = of_nat B / 255"
  define h where "h = hue r g b"
  have Mb: "Mn \<le> Mx" "Mx \<le> 255"
    using bounds by (simp_all add: Mx_def Mn_def min_def max_def)
  have "(of_nat Mn :: rat) \<le> of_nat Mx" "(of_nat Mx :: rat) \<le> of_nat 255"
    using Mb by (simp_all only: of_nat_le_iff)
  then have MD: "0 \<le> D" "D \<le> M" "M \<le> 255" "0 \<le> M"
    by (simp_all add: M_def D_def)
  have emx: "max r (max g b) = M / 255" and emn: "min r (min g b) = (M - D) / 255"
    by (simp_all add: r_def g_def b_def byte_max M_def D_def Mx_def Mn_def)
  have "\<not> (g < b \<and> g \<le> r \<and> b \<le> r)"
    using hue by (simp add: r_def g_def b_def)
  from hue_tent[OF this]
  have hr: "0 \<le> h" "h < 300"
    and tr: "r = (M - D) / 255 + D / 255 * tentR h"
    and tg: "g = (M - D) / 255 + D / 255 * tentG h"
    and tb: "b = (M - D) / 255 + D / 255 * tentB h"
    unfolding emx emn h_def[symmetric] by (simp_all add: diff_divide_distrib)
  have xr: "of_int (int R) = M - D + D * tentR h"
    using tr by (simp add: r_def field_simps)
  have xg: "of_int (int G) = M - D + D * tentG h"
    using tg by (simp add: g_def field_simps)
  have xb: "of_int (int B) = M - D + D * tentB h"
    using tb by (simp add: b_def field_simps)
  define sg where "sg = (if Mx = 0 then 0 else D / M * 255)"
  from rgbHsv_pixel_close[OF bounds hue Mx_def Mn_def, of A]
  obtain ph ps pv where px:
      "rgbHsv_pixel (RGBA R G B A) = RGBA (toUint8Clamp ph) (toUint8Clamp ps) (toUint8Clamp pv) A"
    and eh: "\<bar>ph - h * 255 / 360\<bar> \<le> 65367 * eps"
    and es: "\<bar>ps - sg\<bar> \<le> 391936 * eps"
    and ev: "\<bar>pv - M\<bar> \<le> 256 * eps"
    unfolding h_def r_def g_def b_def sg_def M_def D_def by blast
  define H S V where "H = toUint8Clamp ph" and "S = toUint8Clamp ps" and "V = toUint8Clamp pv"
  have tol: "\<bar>ph - h * 255 / 360\<bar> \<le> 1 / 10000" "\<bar>ps - sg\<bar> \<le> 1 / 10000"
    "\<bar>pv - M\<bar> \<le> 1 / 10000"
    using eh es ev eps_bounds by linarith+
  have V: "V = Mx"
    unfolding V_def using tol(3) by (intro toUint8Clamp_round[OF Mb(2)]) (simp add: M_def)
  have sg_range: "0 \<le> sg" "sg \<le> 255"
  proof -
    show "0 \<le> sg" using MD by (simp add: sg_def)
    show "sg \<le> 255"
    proof (cases "Mx = 0")
      case True
      then show ?thesis by (simp add: sg_def)
    next
      case False
      then have "0 < M" by (simp add: M_def)
      then have "D / M \<le> 1" using MD by simp
      then have "D / M * 255 \<le> 1 * 255" by (intro mult_right_mono) simp_all
      then show ?thesis using False unfolding sg_def by simp
    qed
  qed
  have M_sg: "M * sg / 255 = D"
  proof (cases "Mx = 0")
    case True
    then have "M = 0" by (simp add: M_def)
    then have "D = 0" using MD by simp
    then show ?thesis using True by (simp add: sg_def)
  next
    case False
    then have "M \<noteq> 0" by (simp add: M_def)
    then show ?thesis using False by (simp add: sg_def)
  qed
  have "\<bar>of_nat S - ps\<bar> \<le> 1 / 2"
    unfolding S_def using tol(2) sg_range by (intro toUint8Clamp_near) linarith+
  then have Sq: "\<bar>of_nat S - sg\<bar> \<le> 5001 / 10000" using tol(2) by linarith
  have "\<bar>of_nat H - ph\<bar> \<le> 1 / 2"
    unfolding H_def using tol(1) hr by (intro toUint8Clamp_near) linarith+
  then have Hq: "\<bar>of_nat H - h * 255 / 360\<bar> \<le> 5001 / 10000" using tol(1) by linarith
  have "(of_nat H :: rat) < 214" using Hq hr by linarith
  then have "(of_nat H :: rat) < of_nat 214" by simp
  then have "H < 214" by (simp only: of_nat_less_iff)
  then have Hb: "H \<le> 254" by simp
  have Sb: "S \<le> 255" unfolding S_def by (rule toUint8Clamp_le)
  have Vb: "V \<le> 255" unfolding V_def by (rule toUint8Clamp_le)
  define P where "P = M * of_nat S / 255"
  define h' :: rat where "h' = of_nat H / 255 * 360"
  from hsvToRgb_close[OF Hb Sb Vb]
  obtain zr zg zb where dec:
      "hsvToRgb (of_nat H) (of_nat S) (of_nat V) = (js_round zr, js_round zg, js_round zb)"
    and ez: "\<bar>zr - (P * tentR h' + M - P)\<bar> \<le> 8161 * eps"
      "\<bar>zg - (P * tentG h' + M - P)\<bar> \<le> 8161 * eps"
      "\<bar>zb - (P * tentB h' + M - P)\<bar> \<le> 8161 * eps"
    unfolding P_def h'_def V M_def by blast
  have zt: "\<bar>zr - (P * tentR h' + M - P)\<bar> \<le> 1 / 1000"
    "\<bar>zg - (P * tentG h' + M - P)\<bar> \<le> 1 / 1000"
    "\<bar>zb - (P * tentB h' + M - P)\<bar> \<le> 1 / 1000"
    using ez eps_bounds by linarith+
  have res: "hsv_roundtrip (RGBA R G B A) = (js_round zr, js_round zg, js_round zb)"
    unfolding hsv_roundtrip_def px Let_def pixel.sel H_def[symmetric] S_def[symmetric]
      V_def[symmetric] by (rule dec)
  have "h' - h = 24 / 17 * (of_nat H - h * 255 / 360)"
    by (simp add: h'_def algebra_simps)
  then have "\<bar>h' - h\<bar> = \<bar>24 / 17\<bar> * \<bar>of_nat H - h * 255 / 360\<bar>"
    by (simp only: abs_mult)
  then have hh: "\<bar>h' - h\<bar> / 60 \<le> 1177 / 100000" using Hq by simp
  have lip: "\<bar>tentR h' - tentR h\<bar> \<le> 1177 / 100000" "\<bar>tentG h' - tentG h\<bar> \<le> 1177 / 100000"
    "\<bar>tentB h' - tentB h\<bar> \<le> 1177 / 100000"
    using tent_lipschitz[of h' h] hh by linarith+
  have bnd: "\<exists>p q. \<bar>P - D\<bar> \<le> p \<and> (\<forall>e. 0 \<le> e \<longrightarrow> e \<le> 1177 / 100000 \<longrightarrow> D * e \<le> q)
      \<and> p + q + 1 / 1000 < 7 / 2"
  proof (cases "Mx = 255")
    case True
    then have M1: "M = 255" by (simp add: M_def)
    define K where "K = Mx - Mn"
    have K: "K \<le> 255" using Mb by (simp add: K_def)
    have DK: "D = of_nat K" using Mb by (simp add: D_def K_def of_nat_diff)
    have "sg = D" using True M1 by (simp add: sg_def)
    then have "\<bar>ps - of_nat K\<bar> < 1 / 2" using tol(2) DK by simp
    then have "S = K" unfolding S_def by (rule toUint8Clamp_round[OF K])
    then have PD: "\<bar>P - D\<bar> \<le> 0" by (simp add: P_def M1 DK)
    have "D * e \<le> 3002 / 1000" if "0 \<le> e" "e \<le> 1177 / 100000" for e
    proof -
      have "D * e \<le> 255 * (1177 / 100000)" using that MD by (intro mult_mono) simp_all
      then show ?thesis by simp
    qed
    then show ?thesis using PD by (intro exI[of _ 0] exI[of _ "3002 / 1000"]) simp
  next
    case False
    then have "Mx \<le> 254" using Mb by simp
    then have "(of_nat Mx :: rat) \<le> of_nat 254" by (simp only: of_nat_le_iff)
    then have M254: "M \<le> 254" by (simp add: M_def)
    have "P - D = M / 255 * (of_nat S - sg)"
      using M_sg by (simp add: P_def algebra_simps)
    then have "\<bar>P - D\<bar> = \<bar>M / 255\<bar> * \<bar>of_nat S - sg\<bar>"
      by (simp only: abs_mult)
    also have "\<bar>M / 255\<bar> = M / 255" using MD by simp
    finally have "\<bar>P - D\<bar> = M / 255 * \<bar>of_nat S - sg\<bar>" .
    also have "\<dots> \<le> 254 / 255 * (5001 / 10000)"
      using M254 MD Sq by (intro mult_mono) simp_all
    finally have PD: "\<bar>P - D\<bar> \<le> 499 / 1000" by simp
    have "D * e \<le> 2990 / 1000" if "0 \<le> e" "e \<le> 1177 / 100000" for e
    proof -
      have "D * e \<le> 254 * (1177 / 100000)" using that MD M254 by (intro mult_mono) simp_all
      then show ?thesis by simp
    qed
    then show ?thesis using PD by (intro exI[of _ "499 / 1000"] exI[of _ "2990 / 1000"]) simp
  qed
  then obtain p q where PD: "\<bar>P - D\<bar> \<le> p"
    and Dq: "\<And>e. 0 \<le> e \<Longrightarrow> e \<le> 1177 / 100000 \<Longrightarrow> D * e \<le> q"
    and pq: "p + q + 1 / 1000 < 7 / 2"
    by blast
  have "\<bar>js_round zr - int R\<bar> \<le> 3"
    by (rule channel_error[OF xr tent_range(1,2) zt(1) MD(1) PD Dq[OF abs_ge_zero lip(1)] pq])
  moreover have "\<bar>js_round zg - int G\<bar> \<le> 3"
    by (rule channel_error[OF xg tent_range(3,4) zt(2) MD(1) PD Dq[OF abs_ge_zero lip(2)] pq])
  moreover have "\<bar>js_round zb - int B\<bar> \<le> 3"
    by (rule channel_error[OF xb tent_range(5,6) zt(3) MD(1) PD Dq[OF abs_ge_zero lip(3)] pq])
  ultimately show ?thesis using rt unfolding res by simp
qed

theorem hsv_roundtrip_within_3_witness:
  "(0::nat) \<le> 255 \<and> (3::nat) \<le> 255 \<and> (234::nat) \<le> 255 \<and> \<not> ((3::nat) < 234 \<and> (234::nat) \<le> 0)
   \<and> hsv_roundtrip (RGBA 0 3 234 255) = (0, 6, 234)
   \<and> \<bar>0 - int 0\<bar> \<le> 3 \<and> \<bar>6 - int 3\<bar> \<le> 3 \<and> \<bar>234 - int 234\<bar> \<le> 3"
  using hsv_roundtrip_within_3 [of 0 3 234 255 0 6 234] hsv_roundtrip_example by simp

text \<open>
  C1 as stated fails twice. The stored hue has only 255 steps for 360 degrees, so the
  middle channel can come back 3 away: (0, 3, 234) returns as (0, 6, 234). And where red
  is the largest channel and green is below blue, the remainder is negative, the store
  clamps the hue to 0, and magenta (255, 0, 255) returns as red (255, 0, 0).
\<close>

theorem hsv_roundtrip_counterexample:
  "hsv_roundtrip (RGBA 0 3 234 255) = (0, 6, 234)
   \<and> hsv_roundtrip (RGBA 255 0 255 255) = (255, 0, 0)"
  using hsv_roundtrip_example hsv_roundtrip_example2 by simp

section \<open>Region effects\<close>

lemma same_outside_refl: "same_outside R c c"
  by (simp add: same_outside_def)

lemma same_outside_putImageData:
  "same_outside (in_rect dx dy (iwidth img) (iheight img)) c (putImageData c img dx dy)"
  by (simp add: same_outside_def putImageData_def)

lemma same_outside_composite:
  "same_outside (in_rect dx dy w h) c (composite hst c img sx sy dx dy w h)"
  by (simp add: same_outside_def composite_def)

lemma same_outside_clearRect:
  "same_outside (in_rect rx ry w h) c (clearRect c rx ry w h)"
  by (simp add: same_outside_def clearRect_def)

lemma same_outside_drawImage_rect:
  "same_outside (in_rect dx dy w h) c (fst (drawImage_rect hst c img sx sy dx dy w h))"
  by (simp add: drawImage_rect_def same_outside_refl same_outside_composite)

lemma same_outside_trans:
  assumes "same_outside R c c'" "same_outside R c' c''"
  shows "same_outside R c c''"
  using assms by (simp add: same_outside_def inside_def)

lemma getRegionImageData_size:
  assumes "getRegionImageData region src = Inr img"
  shows "iwidth img = box_width region \<and> iheight img = box_height region"
  using assms by (auto simp: getRegionImageData_def getImageData_def split: if_splits)

lemma same_outside_putRegion:
  assumes "iwidth img = box_width region" "iheight img = box_height region"
  shows "same_outside (region_rect region) c (putRegionImageData c img region)"
  unfolding putRegionImageData_def region_rect_def assms[symmetric]
  by (rule same_outside_putImageData)

lemma grayscale_frame:
  "same_outside (region_rect region) c (fst (applyGrayscaleMask region src c))"
proof (cases "getRegionImageData region src")
  case (Inl e)
  then show ?thesis by (simp add: applyGrayscaleMask_def same_outside_refl)
next
  case (Inr img)
  have "same_outside (region_rect region) c
      (putRegionImageData c (img\<lparr>data := map grayscaleMask_pixel (data img)\<rparr>) region)"
    using getRegionImageData_size[OF Inr] by (intro same_outside_putRegion) simp_all
  then show ?thesis using Inr by (simp add: applyGrayscaleMask_def)
qed

lemma yCbCr_frame:
  "same_outside (region_rect region) c (fst (applyYCbCrMask region src c))"
proof (cases "getRegionImageData region src")
  case (Inl e)
  then show ?thesis by (simp add: applyYCbCrMask_def same_outside_refl)
next
  case (Inr img)
  have "same_outside (region_rect region) c
      (putRegionImageData c (img\<lparr>data := map yCbCrMask_pixel (data img)\<rparr>) region)"
    using getRegionImageData_size[OF Inr] by (intro same_outside_putRegion) simp_all
  then show ?thesis using Inr by (simp add: applyYCbCrMask_def)
qed

lemma blur_frame:
  "same_outside (region_rect region) c (fst (applyBlurMask hst region src c))"
proof -
  obtain t e where t: "drawImage_rect hst (createCanvas (box_width region) (box_height region))
      src (box_x region) (box_y region) 0 0 (box_width region) (box_height region) = (t, e)"
    by (cases "drawImage_rect hst (createCanvas (box_width region) (box_height region))
      src (box_x region) (box_y region) 0 0 (box_width region) (box_height region)")
  show ?thesis
  proof (cases e)
    case (Some err)
    then show ?thesis using t by (simp add: applyBlurMask_def same_outside_refl)
  next
    case None
    have "same_outside (region_rect region) c (fst (drawImage_rect hst
        (clearRect c (box_x region) (box_y region) (box_width region) (box_height region))
        t 0 0 (box_x region) (box_y region) (box_width region) (box_height region)))"
      unfolding region_rect_def
      by (rule same_outside_trans[OF same_outside_clearRect same_outside_drawImage_rect])
    then show ?thesis using t None by (simp add: applyBlurMask_def)
  qed
qed

lemma pixelate_frame:
  "same_outside (region_rect region) c (fst (applyPixelateMask hst region src c))"
proof -
  obtain t e where t: "drawImage_rect hst (createCanvas (box_width region) (box_height region))
      src (box_x region) (box_y region) 0 0 (box_width region) (box_height region) = (t, e)"
    by (cases "drawImage_rect hst (createCanvas (box_width region) (box_height region))
      src (box_x region) (box_y region) 0 0 (box_width region) (box_height region)")
  show ?thesis
  proof (cases e)
    case (Some err)
    then show ?thesis using t by (simp add: applyPixelateMask_def same_outside_refl)
  next
    case None
    obtain t' st e' where l: "pixelate_rows hst (box_width region) (box_height region) 0
        (t, RGBA 0 0 0 255) = ((t', st), e')"
      by (metis surj_pair)
    show ?thesis
    proof (cases e')
      case (Some err)
      then show ?thesis using t None l by (simp add: applyPixelateMask_def same_outside_refl)
    next
      case None': None
      have "same_outside (region_rect region) c (fst (drawImage_rect hst c
          t' 0 0 (box_x region) (box_y region) (box_width region) (box_height region)))"
        unfolding region_rect_def by (rule same_outside_drawImage_rect)
      then show ?thesis using t None l None' by (simp add: applyPixelateMask_def)
    qed
  qed
qed

lemma effect_frame:
  "same_outside (region_rect region) c (fst (applyEffect hst effect region src c))"
proof -
  have branch: "same_outside R c (fst (if t then p else q))"
    if "same_outside R c (fst p)" "same_outside R c (fst q)" for R t p q
    using that by simp
  have "same_outside (region_rect region) c (fst (c, e))" for e :: "error option"
    by (simp add: same_outside_refl)
  then show ?thesis
    unfolding applyEffect_def
    by (intro branch grayscale_frame blur_frame pixelate_frame yCbCr_frame)
qed

lemma canvas_eqI:
  fixes c c' :: canvas
  assumes "same_outside R c c'" "\<And>x y. \<not> (inside c x y \<and> R x y)"
  shows "c' = c"
proof -
  have "bitmap c' = bitmap c"
    using assms by (intro ext) (simp add: same_outside_def)
  then show ?thesis using assms(1) by (simp add: same_outside_def)
qed

lemma outside_no_pixel:
  assumes "region_outside region c"
  shows "\<not> (inside c x y \<and> region_rect region x y)"
  using assms by (auto simp: region_outside_def inside_def region_rect_def in_rect_def)

lemma getImageData_ok:
  assumes "0 < sw" "0 < sh"
  shows "\<exists>img. getImageData c sx sy sw sh = Inr img \<and> iwidth img = sw \<and> iheight img = sh
    \<and> (\<forall>p \<in> set (data img). \<exists>i j. i < sw \<and> j < sh \<and> p = getPixel c (sx + int i) (sy + int j))
    \<and> data img \<noteq> []"
proof -
  let ?d = "concat (map (\<lambda>j. map (\<lambda>i. getPixel c (sx + int i) (sy + int j)) [0..<sw]) [0..<sh])"
  have s: "\<forall>p \<in> set ?d. \<exists>i j. i < sw \<and> j < sh \<and> p = getPixel c (sx + int i) (sy + int j)"
    by auto blast
  have "length ?d = sh * sw"
    by (simp add: length_concat comp_def sum_list_triv)
  then have "?d \<noteq> []" using assms by auto
  then show ?thesis using assms s by (simp add: getImageData_def)
qed

lemma pixelate_row_ok:
  assumes "y < h" "cwidth (fst s) = w" "cheight (fst s) = h"
  shows "snd (pixelate_row hst w h y x s) = None
    \<and> cwidth (fst (fst (pixelate_row hst w h y x s))) = w
    \<and> cheight (fst (fst (pixelate_row hst w h y x s))) = h"
  using assms
proof (induction hst w h y x s rule: pixelate_row.induct)
  case (1 hst w h y x tempCanvas fillStyle)
  show ?case
  proof (cases "x < w")
    case False
    then show ?thesis using 1(3,4) by simp
  next
    case True
    have pos: "0 < min BLOCK_SIZE (w - x)" "0 < min BLOCK_SIZE (h - y)"
      using True 1(2) by (simp_all add: BLOCK_SIZE_def)
    from getImageData_ok[OF pos, of tempCanvas "int x" "int y"]
    obtain blockData where b: "getImageData tempCanvas (int x) (int y)
        (min BLOCK_SIZE (w - x)) (min BLOCK_SIZE (h - y)) = Inr blockData"
      by blast
    let ?st = "set_fillStyle fillStyle (calculateAverageColor (data blockData))"
    let ?t = "fillRect hst tempCanvas ?st (int x) (int y) BLOCK_SIZE BLOCK_SIZE"
    have dims: "cwidth (fst (?t, ?st)) = w" "cheight (fst (?t, ?st)) = h"
      using 1(3,4) by (simp_all add: fillRect_def)
    have IH: "snd (pixelate_row hst w h y (x + BLOCK_SIZE) (?t, ?st)) = None
      \<and> cwidth (fst (fst (pixelate_row hst w h y (x + BLOCK_SIZE) (?t, ?st)))) = w
      \<and> cheight (fst (fst (pixelate_row hst w h y (x + BLOCK_SIZE) (?t, ?st)))) = h"
      by (rule 1(1)[OF True refl refl b refl 1(2) dims])
    have step: "pixelate_row hst w h y x (tempCanvas, fillStyle)
        = pixelate_row hst w h y (x + BLOCK_SIZE) (?t, ?st)"
      using True b by (subst pixelate_row.simps) (simp add: Let_def)
    show ?thesis unfolding step by (rule IH)
  qed
qed

lemma pixelate_rows_ok:
  assumes "cwidth (fst s) = w" "cheight (fst s) = h"
  shows "snd (pixelate_rows hst w h y s) = None
    \<and> cwidth (fst (fst (pixelate_rows hst w h y s))) = w
    \<and> cheight (fst (fst (pixelate_rows hst w h y s))) = h"
  using assms
proof (induction hst w h y s rule: pixelate_rows.induct)
  case (1 hst w h y s)
  show ?case
  proof (cases "y < h")
    case False
    then show ?thesis using 1(2,3) by simp
  next
    case True
    obtain s' e where r: "pixelate_row hst w h y 0 s = (s', e)" by (metis surj_pair)
    have ok: "e = None" "cwidth (fst s') = w" "cheight (fst s') = h"
      using pixelate_row_ok[OF True 1(2,3), of hst 0] r by simp_all
    have step: "pixelate_rows hst w h y s = pixelate_rows hst w h (y + BLOCK_SIZE) s'"
      using True r ok(1) by (subst pixelate_rows.simps) simp
    show ?thesis unfolding step
      using 1(1)[OF True r[unfolded ok(1), symmetric] refl ok(2,3)] .
  qed
qed

lemma grayscale_no_error:
  assumes "0 < box_width region" "0 < box_height region"
  shows "snd (applyGrayscaleMask region src c) = None"
  using getImageData_ok[OF assms, of src "box_x region" "box_y region"]
  by (auto simp: applyGrayscaleMask_def getRegionImageData_def)

lemma yCbCr_no_error:
  assumes "0 < box_width region" "0 < box_height region"
  shows "snd (applyYCbCrMask region src c) = None"
  using getImageData_ok[OF assms, of src "box_x region" "box_y region"]
  by (auto simp: applyYCbCrMask_def getRegionImageData_def)

lemma drawImage_rect_ok:
  assumes "0 < cwidth img" "0 < cheight img" "0 < w" "0 < h"
  shows "drawImage_rect hst c img sx sy dx dy w h = (composite hst c img sx sy dx dy w h, None)"
  using assms by (simp add: drawImage_rect_def)

lemma composite_dims:
  "cwidth (composite hst c img sx sy dx dy w h) = cwidth c"
  "cheight (composite hst c img sx sy dx dy w h) = cheight c"
  by (simp_all add: composite_def)

lemma blur_no_error:
  assumes "0 < box_width region" "0 < box_height region" "0 < cwidth src" "0 < cheight src"
  shows "snd (applyBlurMask hst region src c) = None"
proof -
  let ?t = "composite hst (createCanvas (box_width region) (box_height region)) src
      (box_x region) (box_y region) 0 0 (box_width region) (box_height region)"
  have t: "0 < cwidth ?t" "0 < cheight ?t"
    using assms by (simp_all add: composite_dims createCanvas_def)
  show ?thesis
    unfolding applyBlurMask_def Let_def drawImage_rect_ok[OF assms(3,4,1,2)]
    by (simp add: drawImage_rect_ok[OF t assms(1,2)])
qed

lemma pixelate_no_error:
  assumes "0 < box_width region" "0 < box_height region" "0 < cwidth src" "0 < cheight src"
  shows "snd (applyPixelateMask hst region src c) = None"
proof -
  let ?w = "box_width region" and ?h = "box_height region"
  let ?t = "composite hst (createCanvas ?w ?h) src (box_x region) (box_y region) 0 0 ?w ?h"
  have t: "cwidth (fst (?t, RGBA 0 0 0 255)) = ?w" "cheight (fst (?t, RGBA 0 0 0 255)) = ?h"
    by (simp_all add: composite_dims createCanvas_def)
  obtain t' st e where l: "pixelate_rows hst ?w ?h 0 (?t, RGBA 0 0 0 255) = ((t', st), e)"
    by (metis surj_pair)
  have ok: "e = None" "cwidth t' = ?w" "cheight t' = ?h"
    using pixelate_rows_ok[OF t, of hst 0] l by simp_all
  have t': "0 < cwidth t'" "0 < cheight t'" using ok assms by simp_all
  show ?thesis
    unfolding applyPixelateMask_def Let_def drawImage_rect_ok[OF assms(3,4,1,2)]
    using l ok(1) by (simp add: drawImage_rect_ok[OF t' assms(1,2)])
qed

lemma effect_no_error:
  assumes "0 < box_width region" "0 < box_height region" "0 < cwidth src" "0 < cheight src"
    and "effect \<in> {''grayscale'', ''blur'', ''pixelate'', ''ycbcr''}"
  shows "snd (applyEffect hst effect region src c) = None"
proof -
  consider "effect = ''grayscale''" | "effect = ''blur''" | "effect = ''pixelate''"
    | "effect = ''ycbcr''"
    using assms(5) by blast
  then show ?thesis
  proof cases
    case 1
    then show ?thesis by (simp add: applyEffect_def grayscale_no_error[OF assms(1,2)])
  next
    case 2
    then show ?thesis by (simp add: applyEffect_def blur_no_error[OF assms(1-4)])
  next
    case 3
    then show ?thesis by (simp add: applyEffect_def pixelate_no_error[OF assms(1-4)])
  next
    case 4
    then show ?thesis by (simp add: applyEffect_def yCbCr_no_error[OF assms(1,2)])
  qed
qed

lemma applyEffect_inherited:
  "applyEffect hst ''valueOf'' region src c = (c, Some TypeError)
   \<and> applyEffect hst ''toString'' region src c = (c, None)
   \<and> applyEffect hst ''sepia'' region src c = (c, None)"
  by (simp add: applyEffect_def Object_prototype_raising_def)

text \<open>
  C6. An effect applied with a region that lies entirely outside the destination canvas
  leaves every pixel of the destination as it was, whatever the effect name, the region
  and the source are. For each of the four effects, with a region that has a width and
  a height and a source canvas that is not empty, it raises no exception either: such a
  region is a no-op and not an error.
\<close>

theorem region_outside_noop:
  assumes "region_outside region c"
  shows "fst (applyEffect hst effect region src c) = c
    \<and> (effect \<in> {''grayscale'', ''blur'', ''pixelate'', ''ycbcr''}
        \<and> 0 < box_width region \<and> 0 < box_height region \<and> 0 < cwidth src \<and> 0 < cheight src
        \<longrightarrow> snd (applyEffect hst effect region src c) = None)"
proof -
  have "fst (applyEffect hst effect region src c) = c"
    by (rule canvas_eqI[OF effect_frame outside_no_pixel[OF assms]])
  moreover have "snd (applyEffect hst effect region src c) = None"
    if "effect \<in> {''grayscale'', ''blur'', ''pixelate'', ''ycbcr''}
        \<and> 0 < box_width region \<and> 0 < box_height region \<and> 0 < cwidth src \<and> 0 < cheight src"
  proof -
    have e: "effect \<in> {''grayscale'', ''blur'', ''pixelate'', ''ycbcr''}"
      using that by (rule conjunct1)
    have p: "0 < box_width region" "0 < box_height region" "0 < cwidth src" "0 < cheight src"
      using that by (simp_all only:)
    show ?thesis by (rule effect_no_error[OF p e])
  qed
  ultimately show ?thesis by (intro conjI impI)
qed

theorem region_outside_noop_witness:
  "region_outside \<lparr>box_x = 200, box_y = 0, box_width = 5, box_height = 5\<rparr> (createCanvas 160 120)
   \<and> fst (applyEffect plain_host ''pixelate''
         \<lparr>box_x = 200, box_y = 0, box_width = 5, box_height = 5\<rparr>
         (createCanvas 160 120) (createCanvas 160 120)) = createCanvas 160 120
   \<and> snd (applyEffect plain_host ''pixelate''
         \<lparr>box_x = 200, box_y = 0, box_width = 5, box_height = 5\<rparr>
         (createCanvas 160 120) (createCanvas 160 120)) = None"
  using region_outside_noop [of "\<lparr>box_x = 200, box_y = 0, box_width = 5, box_height = 5\<rparr>"
      "createCanvas 160 120" plain_host "''pixelate''" "createCanvas 160 120"]
  by (simp add: region_outside_def createCanvas_def)

subsection \<open>Pixelating a region of one colour\<close>

lemma sum_list_const:
  assumes "\<forall>p \<in> set d. f p = (k::nat)"
  shows "sum_list (map f d) = length d * k"
  using assms by (induction d) simp_all

lemma js_round_of_nat: "js_round (of_nat n) = int n"
proof -
  have "\<lfloor>(of_int (int n) :: rat) + 1 / 2\<rfloor> = int n"
    by (simp only: floor_eq_iff) simp
  then show ?thesis by (simp add: js_round_def)
qed

lemma average_uniform:
  assumes "\<forall>p \<in> set d. p = RGBA r g b a" "d \<noteq> []"
    and "r \<le> 255" "g \<le> 255" "b \<le> 255"
  shows "calculateAverageColor d = Some (int r, int g, int b)"
proof -
  have n: "length d \<noteq> 0" using assms(2) by simp
  have s: "sum_list (map red d) = length d * r" "sum_list (map green d) = length d * g"
    "sum_list (map blue d) = length d * b"
    using assms(1) by (auto intro!: sum_list_const)
  have q: "(of_nat (length d * k) :: rat) / of_nat (length d) = of_nat k" for k
    using n by simp
  have f: "fl (of_nat k) = of_nat k" if "k \<le> 255" for k
    using that by (intro fl_of_nat) simp
  show ?thesis
    unfolding calculateAverageColor_def Let_def s q f[OF assms(3)] f[OF assms(4)] f[OF assms(5)]
      js_round_of_nat
    using n by simp
qed

lemma css_rgb_byte:
  assumes "r \<le> 255" "g \<le> 255" "b \<le> 255"
  shows "css_rgb (int r) (int g) (int b) = RGBA r g b 255"
  using assms by (simp add: css_rgb_def)

lemma fillRect_uniform:
  assumes "uniform_canvas P w h t" "alpha P = 255"
  shows "uniform_canvas P w h (fillRect hst t P rx ry fw fh)"
  using assms by (simp add: uniform_canvas_def fillRect_def inside_def source_over_def)

lemma pixelate_row_uniform:
  assumes "y < h" "uniform_canvas (RGBA r g b 255) w h (fst s)" "r \<le> 255" "g \<le> 255" "b \<le> 255"
  shows "uniform_canvas (RGBA r g b 255) w h (fst (fst (pixelate_row hst w h y x s)))"
  using assms
proof (induction hst w h y x s rule: pixelate_row.induct)
  case (1 hst w h y x tempCanvas fillStyle)
  let ?P = "RGBA r g b 255"
  have u: "uniform_canvas ?P w h tempCanvas" using 1(3) by simp
  show ?case
  proof (cases "x < w")
    case False
    then show ?thesis using u by simp
  next
    case True
    let ?bw = "min BLOCK_SIZE (w - x)" and ?bh = "min BLOCK_SIZE (h - y)"
    have pos: "0 < ?bw" "0 < ?bh"
      using True 1(2) by (simp_all add: BLOCK_SIZE_def)
    from getImageData_ok[OF pos, of tempCanvas "int x" "int y"]
    obtain blockData where b: "getImageData tempCanvas (int x) (int y) ?bw ?bh = Inr blockData"
      and px: "\<forall>p \<in> set (data blockData). \<exists>i j. i < ?bw \<and> j < ?bh
          \<and> p = getPixel tempCanvas (int x + int i) (int y + int j)"
      and ne: "data blockData \<noteq> []"
      by blast
    have "\<forall>p \<in> set (data blockData). p = ?P"
    proof
      fix p assume "p \<in> set (data blockData)"
      then obtain i j where ij: "i < ?bw" "j < ?bh"
        "p = getPixel tempCanvas (int x + int i) (int y + int j)"
        using px by blast
      have "i < w - x" "j < h - y" using ij(1,2) by simp_all
      then have "x + i < w" "y + j < h" by linarith+
      then have "int x + int i < int w" "int y + int j < int h" by linarith+
      moreover have "cwidth tempCanvas = w" "cheight tempCanvas = h"
        using u by (simp_all add: uniform_canvas_def)
      ultimately have "inside tempCanvas (int x + int i) (int y + int j)"
        by (simp add: inside_def)
      then show "p = ?P" using u ij(3) by (simp add: getPixel_def uniform_canvas_def)
    qed
    then have avg: "calculateAverageColor (data blockData) = Some (int r, int g, int b)"
      using ne 1(4,5,6) by (rule average_uniform)
    have st: "set_fillStyle fillStyle (calculateAverageColor (data blockData)) = ?P"
      unfolding avg using 1(4,5,6) by (simp add: set_fillStyle_def css_rgb_byte)
    let ?t = "fillRect hst tempCanvas ?P (int x) (int y) BLOCK_SIZE BLOCK_SIZE"
    have u': "uniform_canvas ?P w h (fst (?t, ?P))"
      using fillRect_uniform[OF u] by simp
    have step: "pixelate_row hst w h y x (tempCanvas, fillStyle)
        = pixelate_row hst w h y (x + BLOCK_SIZE) (?t, ?P)"
      using True b st by (subst pixelate_row.simps) (simp add: Let_def)
    show ?thesis unfolding step
      using 1(1)[OF True refl refl b refl 1(2) _ 1(4,5,6)] u' st by simp
  qed
qed

lemma pixelate_rows_uniform:
  assumes "uniform_canvas (RGBA r g b 255) w h (fst s)" "r \<le> 255" "g \<le> 255" "b \<le> 255"
  shows "uniform_canvas (RGBA r g b 255) w h (fst (fst (pixelate_rows hst w h y s)))"
  using assms
proof (induction hst w h y s rule: pixelate_rows.induct)
  case (1 hst w h y s)
  show ?case
  proof (cases "y < h")
    case False
    then show ?thesis using 1(2) by simp
  next
    case True
    obtain s' e where r: "pixelate_row hst w h y 0 s = (s', e)" by (metis surj_pair)
    have dims: "cwidth (fst s) = w" "cheight (fst s) = h"
      using 1(2) by (simp_all add: uniform_canvas_def)
    have ok: "e = None"
      using pixelate_row_ok[OF True dims, of hst 0] r by simp
    have u': "uniform_canvas (RGBA r g b 255) w h (fst s')"
      using pixelate_row_uniform[OF True 1(2,3,4,5), of hst 0] r by simp
    have step: "pixelate_rows hst w h y s = pixelate_rows hst w h (y + BLOCK_SIZE) s'"
      using True r ok by (subst pixelate_rows.simps) simp
    show ?thesis unfolding step
      using 1(1)[OF True r[unfolded ok, symmetric] refl u' 1(3,4,5)] .
  qed
qed

text \<open>
  C7. Each of the four effects writes only inside the intersection of the region with the
  destination canvas: every other pixel of the destination keeps its value, and the size
  of the canvas stays, whatever the region, the source and the destination are.
\<close>

theorem effect_writes_only_region:
  assumes "\<not> (inside c x y \<and> region_rect region x y)"
  shows "bitmap (fst (applyEffect hst effect region src c)) x y = bitmap c x y
    \<and> cwidth (fst (applyEffect hst effect region src c)) = cwidth c
    \<and> cheight (fst (applyEffect hst effect region src c)) = cheight c"
  using effect_frame[of region c hst effect src] assms by (simp add: same_outside_def)

theorem effect_writes_only_region_witness:
  "\<not> (inside (createCanvas 160 120) 3 4
        \<and> region_rect \<lparr>box_x = 10, box_y = 20, box_width = 30, box_height = 200\<rparr> 3 4)
   \<and> bitmap (fst (applyEffect plain_host ''pixelate''
         \<lparr>box_x = 10, box_y = 20, box_width = 30, box_height = 200\<rparr>
         (createCanvas 160 120) (createCanvas 160 120))) 3 4
       = bitmap (createCanvas 160 120) 3 4"
  using effect_writes_only_region [of "createCanvas 160 120" 3 4
      "\<lparr>box_x = 10, box_y = 20, box_width = 30, box_height = 200\<rparr>" plain_host "''pixelate''"
      "createCanvas 160 120"]
  by (simp add: region_rect_def in_rect_def)

text \<open>
  C8 (as amended). When the region is not empty, lies inside the source canvas, and all
  its source pixels are one opaque colour with components in 0..255, pixelate raises
  nothing and every destination pixel in the region becomes that colour; drawn on the
  source canvas itself, the effect leaves the canvas unchanged. Blocks cut short by the
  right and bottom edges of the region are covered.
\<close>

theorem pixelate_uniform:
  assumes pos: "0 < box_width region" "0 < box_height region"
    and within: "0 \<le> box_x region" "0 \<le> box_y region"
      "box_x region + int (box_width region) \<le> int (cwidth src)"
      "box_y region + int (box_height region) \<le> int (cheight src)"
    and uniform: "\<forall>x y. region_rect region x y \<longrightarrow> bitmap src x y = RGBA r g b 255"
    and bytes: "r \<le> 255" "g \<le> 255" "b \<le> 255"
  shows "snd (applyPixelateMask hst region src c) = None
    \<and> (\<forall>x y. inside c x y \<and> region_rect region x y \<longrightarrow>
          bitmap (fst (applyPixelateMask hst region src c)) x y = RGBA r g b 255)
    \<and> applyPixelateMask hst region src src = (src, None)"
proof -
  let ?w = "box_width region" and ?h = "box_height region"
  let ?rx = "box_x region" and ?ry = "box_y region"
  let ?P = "RGBA r g b 255"
  have src_pos: "0 < cwidth src" "0 < cheight src" using pos within by linarith+
  have general: "snd (applyPixelateMask hst region src d) = None
    \<and> (\<forall>x y. inside d x y \<and> region_rect region x y \<longrightarrow>
          bitmap (fst (applyPixelateMask hst region src d)) x y = ?P)" for d
  proof -
    let ?t = "composite hst (createCanvas ?w ?h) src ?rx ?ry 0 0 ?w ?h"
    have ut: "uniform_canvas ?P ?w ?h (fst (?t, RGBA 0 0 0 255))"
    proof -
      have "bitmap ?t x y = ?P" if "inside ?t x y" for x y
      proof -
        have xy: "0 \<le> x" "x < int ?w" "0 \<le> y" "y < int ?h"
          using that by (simp_all add: inside_def composite_dims createCanvas_def)
        have "region_rect region (?rx + x) (?ry + y)"
          using xy by (simp add: region_rect_def in_rect_def)
        then have p: "bitmap src (?rx + x) (?ry + y) = ?P" using uniform by blast
        have "inside src (?rx + x) (?ry + y)"
          using xy within by (simp add: inside_def)
        then show ?thesis
          using xy p by (simp add: composite_def createCanvas_def inside_def in_rect_def
              source_over_def)
      qed
      then show ?thesis by (simp add: uniform_canvas_def composite_dims createCanvas_def)
    qed
    obtain t' st e where l: "pixelate_rows hst ?w ?h 0 (?t, RGBA 0 0 0 255) = ((t', st), e)"
      by (metis surj_pair)
    have dims: "cwidth (fst (?t, RGBA 0 0 0 255)) = ?w" "cheight (fst (?t, RGBA 0 0 0 255)) = ?h"
      by (simp_all add: composite_dims createCanvas_def)
    have ok: "e = None" using pixelate_rows_ok[OF dims, of hst 0] l by simp
    have ut': "uniform_canvas ?P ?w ?h t'"
      using pixelate_rows_uniform[OF ut bytes, of hst 0] l by simp
    have t'pos: "0 < cwidth t'" "0 < cheight t'"
      using ut' pos by (simp_all add: uniform_canvas_def)
    have res: "applyPixelateMask hst region src d = (composite hst d t' 0 0 ?rx ?ry ?w ?h, None)"
      unfolding applyPixelateMask_def Let_def drawImage_rect_ok[OF src_pos pos]
      using l ok by (simp add: drawImage_rect_ok[OF t'pos pos])
    have "bitmap (composite hst d t' 0 0 ?rx ?ry ?w ?h) x y = ?P"
      if "inside d x y" "region_rect region x y" for x y
    proof -
      have r: "in_rect ?rx ?ry ?w ?h x y" using that(2) by (simp add: region_rect_def)
      then have i: "inside t' (0 + (x - ?rx)) (0 + (y - ?ry))"
        using ut' by (simp add: inside_def in_rect_def uniform_canvas_def)
      then have "bitmap t' (0 + (x - ?rx)) (0 + (y - ?ry)) = ?P"
        using ut' by (simp add: uniform_canvas_def)
      then show ?thesis
        using that(1) r i by (simp add: composite_def source_over_def)
    qed
    then show ?thesis unfolding res by simp
  qed
  have "fst (applyPixelateMask hst region src src) = src"
  proof -
    let ?c' = "fst (applyPixelateMask hst region src src)"
    have f: "same_outside (region_rect region) src ?c'" by (rule pixelate_frame)
    have "bitmap ?c' x y = bitmap src x y" for x y
    proof (cases "inside src x y \<and> region_rect region x y")
      case True
      then show ?thesis using general[of src] uniform by simp
    next
      case False
      then show ?thesis using f by (simp add: same_outside_def)
    qed
    then have "bitmap ?c' = bitmap src" by (intro ext)
    then show ?thesis using f by (simp add: same_outside_def)
  qed
  then have "applyPixelateMask hst region src src = (src, None)"
    using general[of src] by (simp add: prod_eq_iff)
  then show ?thesis using general[of c] by simp
qed

theorem pixelate_uniform_witness:
  "snd (applyPixelateMask plain_host \<lparr>box_x = 1, box_y = 2, box_width = 6, box_height = 5\<rparr>
          \<lparr>cwidth = 8, cheight = 8, bitmap = (\<lambda>x y. RGBA 10 20 30 255)\<rparr>
          (createCanvas 160 120)) = None
   \<and> bitmap (fst (applyPixelateMask plain_host
          \<lparr>box_x = 1, box_y = 2, box_width = 6, box_height = 5\<rparr>
          \<lparr>cwidth = 8, cheight = 8, bitmap = (\<lambda>x y. RGBA 10 20 30 255)\<rparr>
          (createCanvas 160 120))) 6 6 = RGBA 10 20 30 255
   \<and> applyPixelateMask plain_host \<lparr>box_x = 1, box_y = 2, box_width = 6, box_height = 5\<rparr>
        \<lparr>cwidth = 8, cheight = 8, bitmap = (\<lambda>x y. RGBA 10 20 30 255)\<rparr>
        \<lparr>cwidth = 8, cheight = 8, bitmap = (\<lambda>x y. RGBA 10 20 30 255)\<rparr>
      = (\<lparr>cwidth = 8, cheight = 8, bitmap = (\<lambda>x y. RGBA 10 20 30 255)\<rparr>, None)"
proof -
  have "inside (createCanvas 160 120) 6 6
      \<and> region_rect \<lparr>box_x = 1, box_y = 2, box_width = 6, box_height = 5\<rparr> 6 6"
    by (simp add: inside_def createCanvas_def region_rect_def in_rect_def)
  then show ?thesis
    using pixelate_uniform [of "\<lparr>box_x = 1, box_y = 2, box_width = 6, box_height = 5\<rparr>"
        "\<lparr>cwidth = 8, cheight = 8, bitmap = (\<lambda>x y. RGBA 10 20 30 255)\<rparr>" 10 20 30
        plain_host "createCanvas 160 120"]
    by simp
qed

text \<open>
  C8 as stated fails for a region that reaches past the edge of the source canvas: the
  pixels beyond the edge are read as transparent black and enter the mean of their
  block. On a canvas of two grey pixels (100, 100, 100), the region of width 3 has one
  block of three pixels, whose mean 200 / 3 rounds to 67.
\<close>

theorem pixelate_uniform_counterexample:
  "bitmap (fst (applyPixelateMask plain_host
       \<lparr>box_x = 0, box_y = 0, box_width = 3, box_height = 1\<rparr>
       \<lparr>cwidth = 2, cheight = 1, bitmap = (\<lambda>x y. RGBA 100 100 100 255)\<rparr>
       \<lparr>cwidth = 2, cheight = 1, bitmap = (\<lambda>x y. RGBA 100 100 100 255)\<rparr>)) 0 0
     = RGBA 67 67 67 255"
  by code_simp

section \<open>The pipeline cycle\<close>

lemma visible_eq_iff:
  "visible c = visible c' \<longleftrightarrow>
     cwidth c = cwidth c' \<and> cheight c = cheight c' \<and> (\<forall>x y. getPixel c x y = getPixel c' x y)"
proof
  assume e: "visible c = visible c'"
  have "cwidth (visible c) = cwidth (visible c')" "cheight (visible c) = cheight (visible c')"
    "bitmap (visible c) = bitmap (visible c')"
    using e by simp_all
  then show "cwidth c = cwidth c' \<and> cheight c = cheight c' \<and> (\<forall>x y. getPixel c x y = getPixel c' x y)"
    by (simp add: visible_def)
next
  assume "cwidth c = cwidth c' \<and> cheight c = cheight c' \<and> (\<forall>x y. getPixel c x y = getPixel c' x y)"
  then have "getPixel c = getPixel c'" "cwidth c = cwidth c'" "cheight c = cheight c'"
    by (auto intro!: ext)
  then show "visible c = visible c'"
    by (simp add: visible_def canvas.equality)
qed

lemma visible_draw_scaled:
  assumes "cwidth c = CANVAS_WIDTH" "cheight c = CANVAS_HEIGHT" "good_image img"
  shows "visible (draw_scaled hst c img) = visible img"
proof -
  have d: "cwidth img = CANVAS_WIDTH" "cheight img = CANVAS_HEIGHT"
    and o: "\<And>x y. inside img x y \<Longrightarrow> alpha (bitmap img x y) = 255"
    using assms(3) by (simp_all add: good_image_def)
  have "getPixel (draw_scaled hst c img) x y = getPixel img x y" for x y
    using assms(1,2) d o[of x y]
    by (simp add: draw_scaled_def composite_def getPixel_def inside_def in_rect_def
        source_over_def)
  then show ?thesis
    using assms(1,2) d by (simp add: visible_eq_iff draw_scaled_def composite_def)
qed

lemma frame_data_visible:
  assumes "visible c = visible c'"
  shows "frame_data c = frame_data c'"
  using assms by (simp add: visible_eq_iff frame_data_def)

lemma getImageData_frame:
  "getImageData c 0 0 CANVAS_WIDTH CANVAS_HEIGHT
     = Inr \<lparr>iwidth = CANVAS_WIDTH, iheight = CANVAS_HEIGHT, data = frame_data c\<rparr>"
  by (simp add: getImageData_def frame_data_def CANVAS_WIDTH_def CANVAS_HEIGHT_def)

lemma visible_putImageData:
  assumes "cwidth c = CANVAS_WIDTH" "cheight c = CANVAS_HEIGHT"
  shows "visible (putImageData c \<lparr>iwidth = CANVAS_WIDTH, iheight = CANVAS_HEIGHT, data = d\<rparr> 0 0)
     = filter_output d"
proof -
  have "getPixel (putImageData c \<lparr>iwidth = CANVAS_WIDTH, iheight = CANVAS_HEIGHT, data = d\<rparr> 0 0) x y
      = bitmap (filter_output d) x y" for x y
    using assms by (simp add: putImageData_def getPixel_def inside_def in_rect_def filter_output_def)
  then have "getPixel (putImageData c \<lparr>iwidth = CANVAS_WIDTH, iheight = CANVAS_HEIGHT, data = d\<rparr> 0 0)
      = bitmap (filter_output d)"
    by (intro ext)
  then show ?thesis
    using assms by (simp add: visible_def putImageData_def filter_output_def)
qed

lemma length_frame_data: "length (frame_data c) = CANVAS_HEIGHT * CANVAS_WIDTH"
  by (simp add: frame_data_def length_concat comp_def sum_list_triv)

lemma frame_data_opaque:
  assumes "good_image img"
  shows "\<forall>p \<in> set (frame_data img). alpha p = 255"
proof
  fix p assume "p \<in> set (frame_data img)"
  then obtain i j where ij: "i < CANVAS_WIDTH" "j < CANVAS_HEIGHT" "p = getPixel img (int i) (int j)"
    by (auto simp: frame_data_def)
  then have "inside img (int i) (int j)"
    using assms by (simp add: inside_def good_image_def)
  then show "alpha p = 255"
    using assms ij(3) by (simp add: getPixel_def good_image_def)
qed

lemma pixel_index:
  assumes "0 \<le> x" "x < int w" "0 \<le> y" "y < int h"
  shows "nat y * w + nat x < h * w"
proof -
  have "nat x < w" "nat y + 1 \<le> h" using assms by simp_all
  then have "nat y * w + nat x < nat y * w + w" "(nat y + 1) * w \<le> h * w"
    by (simp_all only: add_less_cancel_left mult_le_mono1)
  moreover have "(nat y + 1) * w = nat y * w + w" by simp
  ultimately show ?thesis by linarith
qed

lemma good_filter_output:
  assumes "length d = CANVAS_HEIGHT * CANVAS_WIDTH" "\<forall>p \<in> set d. alpha p = 255"
  shows "good_image (filter_output d)"
proof -
  have "alpha (bitmap (filter_output d) x y) = 255" if "inside (filter_output d) x y" for x y
  proof -
    have xy: "0 \<le> x" "x < int CANVAS_WIDTH" "0 \<le> y" "y < int CANVAS_HEIGHT"
      using that by (simp_all add: inside_def filter_output_def)
    have "nat y * CANVAS_WIDTH + nat x < length d"
      unfolding assms(1) by (rule pixel_index[OF xy])
    then have "d ! (nat y * CANVAS_WIDTH + nat x) \<in> set d" by (rule nth_mem)
    then show ?thesis using assms(2) xy by (simp add: filter_output_def)
  qed
  then show ?thesis by (simp add: good_image_def filter_output_def)
qed

lemma visible_filter_output: "visible (filter_output d) = filter_output d"
proof -
  have "getPixel (filter_output d) x y = bitmap (filter_output d) x y" for x y
    by (simp add: getPixel_def inside_def filter_output_def)
  then have "getPixel (filter_output d) = bitmap (filter_output d)" by (intro ext)
  then show ?thesis by (simp add: visible_def)
qed

lemma good_image_visible:
  assumes "visible c = filter_output d" "good_image (filter_output d)"
  shows "good_image c"
proof -
  have "visible c = visible (filter_output d)"
    using assms(1) by (simp only: visible_filter_output)
  then have e: "cwidth c = cwidth (filter_output d)" "cheight c = cheight (filter_output d)"
    "\<And>x y. getPixel c x y = getPixel (filter_output d) x y"
    by (simp_all only: visible_eq_iff)
  have "alpha (bitmap c x y) = 255" if "inside c x y" for x y
  proof -
    have i: "inside (filter_output d) x y" using that e(1,2) by (simp add: inside_def)
    then have "bitmap c x y = bitmap (filter_output d) x y"
      using e(3)[of x y] that by (simp add: getPixel_def)
    then show ?thesis using assms(2) i by (simp add: good_image_def)
  qed
  then show ?thesis using e(1,2) by (simp add: good_image_def filter_output_def)
qed

lemma implemented_map:
  assumes "implemented f"
  shows "\<exists>px. (\<forall>d. processImageData sl f d = Inr (map px d))
    \<and> (\<forall>p. alpha p = 255 \<longrightarrow> alpha (px p) = 255)"
proof (cases f)
  case (GrayScaleFilter c k)
  then show ?thesis
    by (intro exI[of _ "grayScale_pixel k"])
      (simp add: GrayScaleFilter_processImageData_def grayScale_pixel_def Let_def)
next
  case (WebcamRepeatFilter c)
  then show ?thesis
    by (intro exI[of _ "\<lambda>p. p"]) (simp add: WebcamRepeatFilter_processImageData_def)
next
  case (ChannelFilter c ch)
  then show ?thesis
    by (intro exI[of _ "channel_pixel ch"])
      (simp add: ChannelFilter_processImageData_def channel_pixel_def Let_def)
next
  case (ChannelThresholdFilter c ch s)
  then show ?thesis
    by (intro exI[of _ "channelThreshold_pixel ch (sl s)"])
      (simp add: ChannelThresholdFilter_processImageData_def channelThreshold_pixel_def Let_def)
next
  case (YCbCrFilter c)
  then show ?thesis
    by (intro exI[of _ "yCbCr_pixel"])
      (simp add: YCbCrFilter_processImageData_def yCbCr_pixel_def Let_def)
next
  case (YCbCrThresholdFilter c s)
  then show ?thesis
    by (intro exI[of _ "yCbCrThreshold_pixel (sl s)"])
      (simp add: YCbCrThresholdFilter_processImageData_def yCbCrThreshold_pixel_def Let_def)
next
  case (RgbHsvFilter c)
  then show ?thesis
    by (intro exI[of _ "rgbHsv_pixel"])
      (simp add: RgbHsvFilter_processImageData_def rgbHsv_pixel_def Let_def)
next
  case (RgbHsvThresholdFilter c s)
  then show ?thesis
    by (intro exI[of _ "rgbHsvThreshold_pixel (sl s)"])
      (simp add: RgbHsvThresholdFilter_processImageData_def rgbHsvThreshold_pixel_def Let_def
        split: prod.splits)
qed (use assms in \<open>simp_all add: implemented_def\<close>)

lemma good_out:
  assumes "implemented f" "good_image img"
  shows "good_image (out sl f img)"
proof -
  obtain px where px: "\<And>d. processImageData sl f d = Inr (map px d)"
    "\<And>p. alpha p = 255 \<Longrightarrow> alpha (px p) = 255"
    using implemented_map[OF assms(1), of sl] by blast
  have "processed sl f (frame_data img) = map px (frame_data img)"
    by (simp add: processed_def px(1))
  moreover have "\<forall>p \<in> set (map px (frame_data img)). alpha p = 255"
    using frame_data_opaque[OF assms(2)] px(2) by simp
  ultimately show ?thesis
    unfolding out_def by (intro good_filter_output) (simp_all add: length_frame_data)
qed

lemma process_good:
  assumes f: "implemented f"
    and c: "cwidth (dom_canvas st (canvas_of f)) = CANVAS_WIDTH"
      "cheight (dom_canvas st (canvas_of f)) = CANVAS_HEIGHT"
    and img: "good_image img"
    and src: "source = VideoSource (Some img) \<or> source = CanvasSource img"
  shows "\<exists>R. ImageFilter_process hst f source st = (set_canvas (canvas_of f) R st, None)
    \<and> visible R = out (sliders st) f img \<and> good_image R"
proof -
  let ?c = "dom_canvas st (canvas_of f)"
  let ?c1 = "draw_scaled hst ?c img"
  have pos: "cwidth img \<noteq> 0" "cheight img \<noteq> 0"
    using img by (simp_all add: good_image_def CANVAS_WIDTH_def CANVAS_HEIGHT_def)
  have draw: "drawImage hst ?c source = (?c1, None)"
    using src pos by (auto simp: drawImage_def)
  have v1: "visible ?c1 = visible img" by (rule visible_draw_scaled[OF c img])
  have c1: "cwidth ?c1 = CANVAS_WIDTH" "cheight ?c1 = CANVAS_HEIGHT"
    using c by (simp_all add: draw_scaled_def composite_dims)
  obtain px where px: "\<And>d. processImageData (sliders st) f d = Inr (map px d)"
    using implemented_map[OF f, of "sliders st"] by blast
  let ?d = "map px (frame_data ?c1)"
  let ?R = "putImageData ?c1 \<lparr>iwidth = CANVAS_WIDTH, iheight = CANVAS_HEIGHT, data = ?d\<rparr> 0 0"
  have run: "ImageFilter_process hst f source st = (set_canvas (canvas_of f) ?R st, None)"
    by (simp add: ImageFilter_process_def draw getImageData_frame px)
  have "frame_data ?c1 = frame_data img" by (rule frame_data_visible[OF v1])
  then have "?d = processed (sliders st) f (frame_data img)"
    by (simp add: processed_def px)
  then have vis: "visible ?R = out (sliders st) f img"
    using visible_putImageData[OF c1, of ?d] by (simp add: out_def)
  have "good_image ?R"
    using vis good_out[OF f img, of "sliders st"] unfolding out_def
    by (rule good_image_visible)
  then show ?thesis using run vis by blast
qed

lemma out_visible:
  assumes "visible img = visible img'"
  shows "out sl f img = out sl f img'"
  using frame_data_visible[OF assms] by (simp add: out_def)

lemma cycle_inv_set_canvas:
  assumes "cycle_inv hst frame sl D s" "visible R = expected hst frame sl cid" "good_image R"
  shows "cycle_inv hst frame sl (cid # D) (set_canvas cid R s)"
  using assms
  by (auto simp: cycle_inv_def cycle_ready_def set_canvas_def good_image_def)

lemma step_video:
  assumes inv: "cycle_inv hst frame sl D s" and f: "implemented f"
    and e: "expected hst frame sl (canvas_of f) = out sl f frame"
  shows "snd (ImageFilter_process hst f (VideoSource (webcamVideo s)) s) = None
    \<and> cycle_inv hst frame sl (canvas_of f # D)
        (fst (ImageFilter_process hst f (VideoSource (webcamVideo s)) s))"
proof -
  have r: "webcamVideo s = Some frame" "sliders s = sl" "good_image frame"
    "cwidth (dom_canvas s (canvas_of f)) = CANVAS_WIDTH"
    "cheight (dom_canvas s (canvas_of f)) = CANVAS_HEIGHT"
    using inv by (simp_all add: cycle_inv_def cycle_ready_def)
  obtain R where R: "ImageFilter_process hst f (VideoSource (Some frame)) s
      = (set_canvas (canvas_of f) R s, None)"
    "visible R = out (sliders s) f frame" "good_image R"
    using process_good[OF f r(4,5) r(3), of "VideoSource (Some frame)" hst] by blast
  have "cycle_inv hst frame sl (canvas_of f # D) (set_canvas (canvas_of f) R s)"
    using R(2) r(2) e by (intro cycle_inv_set_canvas[OF inv _ R(3)]) simp
  then show ?thesis using R(1) r(1) by simp
qed

lemma step_canvas:
  assumes inv: "cycle_inv hst frame sl D s" and f: "implemented f"
    and src: "srcid \<in> set D"
    and e: "expected hst frame sl (canvas_of f) = out sl f (expected hst frame sl srcid)"
  shows "snd (ImageFilter_process hst f (CanvasSource (dom_canvas s srcid)) s) = None
    \<and> cycle_inv hst frame sl (canvas_of f # D)
        (fst (ImageFilter_process hst f (CanvasSource (dom_canvas s srcid)) s))"
proof -
  have r: "sliders s = sl"
    "cwidth (dom_canvas s (canvas_of f)) = CANVAS_WIDTH"
    "cheight (dom_canvas s (canvas_of f)) = CANVAS_HEIGHT"
    using inv by (simp_all add: cycle_inv_def cycle_ready_def)
  have s: "visible (dom_canvas s srcid) = expected hst frame sl srcid"
    "good_image (dom_canvas s srcid)"
    using inv src by (simp_all add: cycle_inv_def)
  obtain R where R: "ImageFilter_process hst f (CanvasSource (dom_canvas s srcid)) s
      = (set_canvas (canvas_of f) R s, None)"
    "visible R = out (sliders s) f (dom_canvas s srcid)" "good_image R"
    using process_good[OF f r(2,3) s(2), of "CanvasSource (dom_canvas s srcid)" hst] by blast
  have "visible (dom_canvas s srcid) = visible (expected hst frame sl srcid)"
  proof -
    have "visible (visible (dom_canvas s srcid)) = visible (dom_canvas s srcid)"
      by (simp add: visible_eq_iff) (simp add: visible_def getPixel_def inside_def)
    then show ?thesis using s(1) by simp
  qed
  then have "out sl f (dom_canvas s srcid) = out sl f (expected hst frame sl srcid)"
    by (rule out_visible)
  then have "visible R = expected hst frame sl (canvas_of f)"
    using R(2) r(1) e by simp
  then have "cycle_inv hst frame sl (canvas_of f # D) (set_canvas (canvas_of f) R s)"
    by (rule cycle_inv_set_canvas[OF inv _ R(3)])
  then show ?thesis using R(1) by simp
qed

lemma run_steps_inv_Cons:
  assumes "I s" "\<And>s. I s \<Longrightarrow> snd (f s) = None \<and> J (fst (f s))"
    and "\<And>s. J s \<Longrightarrow> Q (run_steps fs s)"
  shows "Q (run_steps (f # fs) s)"
proof -
  obtain s' e where r: "f s = (s', e)" by (cases "f s")
  have "e = None" "J s'" using assms(2)[OF assms(1)] r by simp_all
  then show ?thesis using r assms(3)[of s'] by simp
qed

lemma visible_idem: "visible (visible c) = visible c"
  by (simp add: visible_eq_iff) (simp add: visible_def getPixel_def inside_def)

lemma inside_visible: "inside (visible c) x y = inside c x y"
  by (simp add: inside_def visible_def)

lemma inside_strokeRect: "inside (strokeRect hst b c) x y = inside c x y"
  by (simp add: inside_def strokeRect_def)

lemma visible_strokeRect: "visible (strokeRect hst b c) = strokeRect hst b (visible c)"
proof -
  have "getPixel (strokeRect hst b c) x y = bitmap (strokeRect hst b (visible c)) x y" for x y
  proof -
    have l: "getPixel (strokeRect hst b c) x y
        = (if inside c x y then stroke hst b (visible c) x y else RGBA 0 0 0 0)"
      unfolding getPixel_def inside_strokeRect by (simp add: strokeRect_def)
    have "bitmap (strokeRect hst b (visible c)) x y
        = (if inside c x y then stroke hst b (visible c) x y else bitmap (visible c) x y)"
      by (simp add: strokeRect_def inside_visible visible_idem)
    also have "\<dots> = (if inside c x y then stroke hst b (visible c) x y else RGBA 0 0 0 0)"
      by (simp add: visible_def getPixel_def)
    finally show ?thesis using l by simp
  qed
  then have "getPixel (strokeRect hst b c) = bitmap (strokeRect hst b (visible c))"
    by (intro ext)
  then show ?thesis by (simp add: visible_def strokeRect_def)
qed

lemma visible_drawDetections:
  "visible (drawDetections hst ds c) = drawDetections hst ds (visible c)"
  unfolding drawDetections_def
  by (induction ds arbitrary: c) (simp_all add: visible_strokeRect)

lemma drawDetections_dims:
  "cwidth (drawDetections hst ds c) = cwidth c \<and> cheight (drawDetections hst ds c) = cheight c"
  unfolding drawDetections_def
  by (induction ds arbitrary: c) (simp_all add: strokeRect_def)

lemma step_face:
  assumes inv: "cycle_inv hst frame sl D s" and src: "C_webcamRepeat \<in> set D"
    and False: "C_faceDetection \<notin> set D"
  shows "visible (dom_canvas (fst (FaceDetectionFilter_process hst (FaceDetectionFilter C_faceDetection)
        (CanvasSource (dom_canvas s C_webcamRepeat)) s)) C_faceDetection)
      = expected hst frame sl C_faceDetection
    \<and> cycle_inv hst frame sl D (fst (FaceDetectionFilter_process hst
        (FaceDetectionFilter C_faceDetection) (CanvasSource (dom_canvas s C_webcamRepeat)) s))
    \<and> snd (FaceDetectionFilter_process hst (FaceDetectionFilter C_faceDetection)
        (CanvasSource (dom_canvas s C_webcamRepeat)) s) = face_error hst frame sl"
proof -
  let ?wr = "dom_canvas s C_webcamRepeat" and ?fc = "dom_canvas s C_faceDetection"
  let ?c1 = "draw_scaled hst ?fc ?wr"
  let ?E = "out sl (webcamRepeat initializeFilters) frame"
  have r: "cwidth ?fc = CANVAS_WIDTH" "cheight ?fc = CANVAS_HEIGHT"
    using inv by (simp_all add: cycle_inv_def cycle_ready_def)
  have w: "visible ?wr = ?E" "good_image ?wr"
    using inv src by (auto simp: cycle_inv_def)
  have pos: "cwidth ?wr \<noteq> 0" "cheight ?wr \<noteq> 0"
    using w(2) by (simp_all add: good_image_def CANVAS_WIDTH_def CANVAS_HEIGHT_def)
  have draw: "drawImage hst ?fc (CanvasSource ?wr) = (?c1, None)"
    using pos by (simp add: drawImage_def)
  have v1: "visible ?c1 = ?E"
    using visible_draw_scaled[OF r w(2), of hst] w(1) by simp
  have vE: "visible ?E = ?E" by (simp add: out_def visible_filter_output)
  have c1: "cwidth ?c1 = CANVAS_WIDTH" "cheight ?c1 = CANVAS_HEIGHT"
    using r by (simp_all add: draw_scaled_def composite_dims)
  have keep: "cycle_inv hst frame sl D (set_canvas C_faceDetection R (s\<lparr>detections := ds\<rparr>))"
    if "cwidth R = CANVAS_WIDTH" "cheight R = CANVAS_HEIGHT" for R ds
    using inv False that
    by (auto simp: cycle_inv_def cycle_ready_def set_canvas_def)
  show ?thesis
  proof (cases "detect hst ?E")
    case (Inl e)
    have run: "FaceDetectionFilter_process hst (FaceDetectionFilter C_faceDetection)
        (CanvasSource ?wr) s = (set_canvas C_faceDetection ?c1 s, Some e)"
      using Inl by (simp add: draw v1)
    have "expected hst frame sl C_faceDetection = ?E"
      using Inl by (simp add: face_output_def vE)
    then show ?thesis
      unfolding run using v1 keep[OF c1, of "detections s"] Inl
      by (simp add: set_canvas_def face_error_def)
  next
    case (Inr ds)
    let ?R = "drawDetections hst ds ?c1"
    have run: "FaceDetectionFilter_process hst (FaceDetectionFilter C_faceDetection)
        (CanvasSource ?wr) s = (set_canvas C_faceDetection ?R (s\<lparr>detections := ds\<rparr>), None)"
      using Inr by (simp add: draw v1)
    have "expected hst frame sl C_faceDetection = drawDetections hst ds ?E"
      using Inr by (simp add: face_output_def vE)
    moreover have "visible ?R = drawDetections hst ds ?E"
      by (simp add: visible_drawDetections v1)
    moreover have "cwidth ?R = CANVAS_WIDTH" "cheight ?R = CANVAS_HEIGHT"
      using c1 by (simp_all add: drawDetections_dims)
    ultimately show ?thesis
      unfolding run using keep[of ?R ds] Inr by (simp add: set_canvas_def face_error_def)
  qed
qed

lemma sync_step_video:
  assumes "implemented (sel initializeFilters)" "canvas_of (sel initializeFilters) = cid"
    and "expected hst frame sl cid = out sl (sel initializeFilters) frame"
    and "cycle_inv hst frame sl D s"
  shows "snd (ImageFilter_process hst (sel (filters s)) (VideoSource (webcamVideo s)) s) = None
    \<and> cycle_inv hst frame sl (cid # D)
        (fst (ImageFilter_process hst (sel (filters s)) (VideoSource (webcamVideo s)) s))"
proof -
  have f: "filters s = initializeFilters"
    using assms(4) by (simp add: cycle_inv_def cycle_ready_def)
  show ?thesis
    unfolding f using step_video[OF assms(4) assms(1)] assms(2,3) by simp
qed

lemma sync_step_canvas:
  assumes "implemented (sel initializeFilters)" "canvas_of (sel initializeFilters) = cid"
    and "canvas_of (src initializeFilters) \<in> set D"
    and "expected hst frame sl cid
      = out sl (sel initializeFilters) (expected hst frame sl (canvas_of (src initializeFilters)))"
    and "cycle_inv hst frame sl D s"
  shows "snd (ImageFilter_process hst (sel (filters s))
        (CanvasSource (dom_canvas s (canvas_of (src (filters s))))) s) = None
    \<and> cycle_inv hst frame sl (cid # D)
        (fst (ImageFilter_process hst (sel (filters s))
          (CanvasSource (dom_canvas s (canvas_of (src (filters s))))) s))"
proof -
  have f: "filters s = initializeFilters"
    using assms(5) by (simp add: cycle_inv_def cycle_ready_def)
  show ?thesis
    unfolding f using step_canvas[OF assms(5) assms(1) assms(3)] assms(2,4) by simp
qed

lemma face_final:
  assumes "cycle_inv hst frame sl D s" "C_faceDetection \<notin> set D"
    and all: "\<And>cid. cid \<noteq> C_faceDetection \<Longrightarrow> cid \<in> set D"
  shows "cycle_done hst frame sl
    (fst (run_steps [\<lambda>st. FaceDetectionFilter_process hst (faceDetection (filters st))
        (CanvasSource (dom_canvas st (canvas_of (webcamRepeat (filters st))))) st] s))
    \<and> snd (run_steps [\<lambda>st. FaceDetectionFilter_process hst (faceDetection (filters st))
        (CanvasSource (dom_canvas st (canvas_of (webcamRepeat (filters st))))) st] s)
      = face_error hst frame sl"
proof -
  let ?r = "FaceDetectionFilter_process hst (FaceDetectionFilter C_faceDetection)
      (CanvasSource (dom_canvas s C_webcamRepeat)) s"
  have f: "filters s = initializeFilters"
    using assms(1) by (simp add: cycle_inv_def cycle_ready_def)
  have step: "(\<lambda>st. FaceDetectionFilter_process hst (faceDetection (filters st))
        (CanvasSource (dom_canvas st (canvas_of (webcamRepeat (filters st))))) st) s = ?r"
    by (simp add: f initializeFilters_def)
  have single: "fst (run_steps [g] s) = fst (g s)" "snd (run_steps [g] s) = snd (g s)" for g
    by (cases "g s"; auto split: option.splits)+
  have wr: "C_webcamRepeat \<in> set D" by (rule all) simp
  have r: "visible (dom_canvas (fst ?r) C_faceDetection) = expected hst frame sl C_faceDetection"
    "cycle_inv hst frame sl D (fst ?r)" "snd ?r = face_error hst frame sl"
    using step_face[OF assms(1) wr assms(2)] by simp_all
  have "visible (dom_canvas (fst ?r) cid) = expected hst frame sl cid" for cid
  proof (cases "cid = C_faceDetection")
    case True
    then show ?thesis using r(1) by simp
  next
    case False
    then show ?thesis using r(2) all[OF False] by (simp add: cycle_inv_def)
  qed
  then have "cycle_done hst frame sl (fst ?r)"
    using r(2) by (simp add: cycle_done_def cycle_inv_def)
  then show ?thesis unfolding single step using r(3) by simp
qed

lemma cycle_result:
  assumes "cycle_ready frame sl st"
  shows "cycle_done hst frame sl (fst (run_steps (processImage_steps hst) st))
    \<and> snd (run_steps (processImage_steps hst) st) = face_error hst frame sl"
proof -
  have s0: "cycle_inv hst frame sl [] st"
    using assms by (simp add: cycle_inv_def)
  note init = initializeFilters_def implemented_def
  show ?thesis
    unfolding processImage_steps_def
    apply (rule run_steps_inv_Cons[where I = "cycle_inv hst frame sl []" and J = "cycle_inv hst frame sl [C_webcamRepeat]"
          and Q = "\<lambda>r. cycle_done hst frame sl (fst r) \<and> snd r = face_error hst frame sl"])
      apply (rule s0)
     apply (rule sync_step_video[where sel = webcamRepeat and cid = C_webcamRepeat]; simp add: init)
    apply (rule run_steps_inv_Cons[where I = "cycle_inv hst frame sl [C_webcamRepeat]" and J = "cycle_inv hst frame sl [C_grayscale, C_webcamRepeat]"
          and Q = "\<lambda>r. cycle_done hst frame sl (fst r) \<and> snd r = face_error hst frame sl"])
      apply assumption
     apply (rule sync_step_video[where sel = grayscale and cid = C_grayscale]; simp add: init)
    apply (rule run_steps_inv_Cons[where I = "cycle_inv hst frame sl [C_grayscale, C_webcamRepeat]" and J = "cycle_inv hst frame sl [C_redChannel, C_grayscale, C_webcamRepeat]"
          and Q = "\<lambda>r. cycle_done hst frame sl (fst r) \<and> snd r = face_error hst frame sl"])
      apply assumption
     apply (rule sync_step_video[where sel = redChannel and cid = C_redChannel]; simp add: init)
    apply (rule run_steps_inv_Cons[where I = "cycle_inv hst frame sl [C_redChannel, C_grayscale, C_webcamRepeat]" and J = "cycle_inv hst frame sl [C_greenChannel, C_redChannel, C_grayscale, C_webcamRepeat]"
          and Q = "\<lambda>r. cycle_done hst frame sl (fst r) \<and> snd r = face_error hst frame sl"])
      apply assumption
     apply (rule sync_step_video[where sel = greenChannel and cid = C_greenChannel]; simp add: init)
    apply (rule run_steps_inv_Cons[where I = "cycle_inv hst frame sl [C_greenChannel, C_redChannel, C_grayscale, C_webcamRepeat]" and J = "cycle_inv hst frame sl [C_blueChannel, C_greenChannel, C_redChannel, C_grayscale, C_webcamRepeat]"
          and Q = "\<lambda>r. cycle_done hst frame sl (fst r) \<and> snd r = face_error hst frame sl"])
      apply assumption
     apply (rule sync_step_video[where sel = blueChannel and cid = C_blueChannel]; simp add: init)
    apply (rule run_steps_inv_Cons[where I = "cycle_inv hst frame sl [C_blueChannel, C_greenChannel, C_redChannel, C_grayscale, C_webcamRepeat]" and J = "cycle_inv hst frame sl [C_redThresholdCanvas, C_blueChannel, C_greenChannel, C_redChannel, C_grayscale, C_webcamRepeat]"
          and Q = "\<lambda>r. cycle_done hst frame sl (fst r) \<and> snd r = face_error hst frame sl"])
      apply assumption
     apply (rule sync_step_video[where sel = redThreshold and cid = C_redThresholdCanvas]; simp add: init)
    apply (rule run_steps_inv_Cons[where I = "cycle_inv hst frame sl [C_redThresholdCanvas, C_blueChannel, C_greenChannel, C_redChannel, C_grayscale, C_webcamRepeat]" and J = "cycle_inv hst frame sl [C_greenThresholdCanvas, C_redThresholdCanvas, C_blueChannel, C_greenChannel, C_redChannel, C_grayscale, C_webcamRepeat]"
          and Q = "\<lambda>r. cycle_done hst frame sl (fst r) \<and> snd r = face_error hst frame sl"])
      apply assumption
     apply (rule sync_step_video[where sel = greenThreshold and cid = C_greenThresholdCanvas]; simp add: init)
    apply (rule run_steps_inv_Cons[where I = "cycle_inv hst frame sl [C_greenThresholdCanvas, C_redThresholdCanvas, C_blueChannel, C_greenChannel, C_redChannel, C_grayscale, C_webcamRepeat]" and J = "cycle_inv hst frame sl [C_blueThresholdCanvas, C_greenThresholdCanvas, C_redThresholdCanvas, C_blueChannel, C_greenChannel, C_redChannel, C_grayscale, C_webcamRepeat]"
          and Q = "\<lambda>r. cycle_done hst frame sl (fst r) \<and> snd r = face_error hst frame sl"])
      apply assumption
     apply (rule sync_step_video[where sel = blueThreshold and cid = C_blueThresholdCanvas]; simp add: init)
    apply (rule run_steps_inv_Cons[where I = "cycle_inv hst frame sl [C_blueThresholdCanvas, C_greenThresholdCanvas, C_redThresholdCanvas, C_blueChannel, C_greenChannel, C_redChannel, C_grayscale, C_webcamRepeat]" and J = "cycle_inv hst frame sl [C_colorSpace1, C_blueThresholdCanvas, C_greenThresholdCanvas, C_redThresholdCanvas, C_blueChannel, C_greenChannel, C_redChannel, C_grayscale, C_webcamRepeat]"
          and Q = "\<lambda>r. cycle_done hst frame sl (fst r) \<and> snd r = face_error hst frame sl"])
      apply assumption
     apply (rule sync_step_video[where sel = rgbHsv and cid = C_colorSpace1]; simp add: init)
    apply (rule run_steps_inv_Cons[where I = "cycle_inv hst frame sl [C_colorSpace1, C_blueThresholdCanvas, C_greenThresholdCanvas, C_redThresholdCanvas, C_blueChannel, C_greenChannel, C_redChannel, C_grayscale, C_webcamRepeat]" and J = "cycle_inv hst frame sl [C_thresholdSpace1, C_colorSpace1, C_blueThresholdCanvas, C_greenThresholdCanvas, C_redThresholdCanvas, C_blueChannel, C_greenChannel, C_redChannel, C_grayscale, C_webcamRepeat]"
          and Q = "\<lambda>r. cycle_done hst frame sl (fst r) \<and> snd r = face_error hst frame sl"])
      apply assumption
     apply (rule sync_step_canvas[where sel = rgbHsvThreshold and src = rgbHsv and cid = C_thresholdSpace1]; simp add: init)
    apply (rule run_steps_inv_Cons[where I = "cycle_inv hst frame sl [C_thresholdSpace1, C_colorSpace1, C_blueThresholdCanvas, C_greenThresholdCanvas, C_redThresholdCanvas, C_blueChannel, C_greenChannel, C_redChannel, C_grayscale, C_webcamRepeat]" and J = "cycle_inv hst frame sl [C_colorSpace2, C_thresholdSpace1, C_colorSpace1, C_blueThresholdCanvas, C_greenThresholdCanvas, C_redThresholdCanvas, C_blueChannel, C_greenChannel, C_redChannel, C_grayscale, C_webcamRepeat]"
          and Q = "\<lambda>r. cycle_done hst frame sl (fst r) \<and> snd r = face_error hst frame sl"])
      apply assumption
     apply (rule sync_step_video[where sel = ycbcr and cid = C_colorSpace2]; simp add: init)
    apply (rule run_steps_inv_Cons[where I = "cycle_inv hst frame sl [C_colorSpace2, C_thresholdSpace1, C_colorSpace1, C_blueThresholdCanvas, C_greenThresholdCanvas, C_redThresholdCanvas, C_blueChannel, C_greenChannel, C_redChannel, C_grayscale, C_webcamRepeat]" and J = "cycle_inv hst frame sl [C_thresholdSpace2, C_colorSpace2, C_thresholdSpace1, C_colorSpace1, C_blueThresholdCanvas, C_greenThresholdCanvas, C_redThresholdCanvas, C_blueChannel, C_greenChannel, C_redChannel, C_grayscale, C_webcamRepeat]"
          and Q = "\<lambda>r. cycle_done hst frame sl (fst r) \<and> snd r = face_error hst frame sl"])
      apply assumption
     apply (rule sync_step_canvas[where sel = ycbcrThreshold and src = ycbcr and cid = C_thresholdSpace2]; simp add: init)
    apply (rule face_final)
      apply assumption
     apply simp
    subgoal for s1 s2 s3 s4 s5 s6 s7 s8 s9 s10 s11 s12 cid
      by (cases cid) simp_all
    done
qed

lemma processImage_done:
  assumes "cycle_ready frame sl st"
  shows "cycle_done hst frame sl (processImage hst st)"
proof -
  obtain s e where r: "run_steps (processImage_steps hst) st = (s, e)"
    by (cases "run_steps (processImage_steps hst) st")
  have "cycle_done hst frame sl s"
    using cycle_result[OF assms, of hst] r by simp
  then show ?thesis
    unfolding processImage_def r
    by (cases e) (simp_all add: cycle_done_def cycle_ready_def)
qed

lemma run_steps_abort:
  assumes "run_steps pre st = (st1, None)" "f st1 = (st2, Some e)"
  shows "run_steps (pre @ f # post) st = (st2, Some e)"
  using assms
proof (induction pre arbitrary: st)
  case Nil
  then show ?case by simp
next
  case (Cons g pre)
  obtain s x where g: "g st = (s, x)" by (cases "g st")
  show ?case
  proof (cases x)
    case None
    then show ?thesis using Cons g by simp
  next
    case (Some err)
    then show ?thesis using Cons(2) g by simp
  qed
qed

lemma run_steps_abort_at:
  assumes "k < length fs" "run_steps (take k fs) st = (st1, None)" "(fs ! k) st1 = (st2, Some e)"
  shows "run_steps fs st = (st2, Some e)"
proof -
  have "fs = take k fs @ fs ! k # drop (Suc k) fs"
    using assms(1) by (rule id_take_nth_drop)
  then show ?thesis
    using run_steps_abort[of "take k fs" st st1 "fs ! k" st2 e "drop (Suc k) fs"] assms(2,3)
    by simp
qed

lemma process_raises:
  assumes "ImageFilter_process hst f source st = (st', Some e)"
  shows "st' = set_canvas (canvas_of f) (fst (drawImage hst (dom_canvas st (canvas_of f)) source)) st"
  using assms
  by (auto simp: ImageFilter_process_def split: prod.splits option.splits sum.splits)

lemma face_raises:
  assumes "FaceDetectionFilter_process hst (FaceDetectionFilter cid) source st = (st', Some e)"
  shows "st' = set_canvas cid (fst (drawImage hst (dom_canvas st cid) source)) st"
  using assms
  by (auto split: prod.splits option.splits sum.splits)

lemma process_other_canvas:
  assumes "cid \<noteq> canvas_of f"
  shows "dom_canvas (fst (ImageFilter_process hst f source st)) cid = dom_canvas st cid"
  using assms
  by (auto simp: ImageFilter_process_def set_canvas_def
      split: prod.splits option.splits sum.splits)

lemma good_white_frame: "good_image white_frame"
  by (simp add: good_image_def white_frame_def)

lemma example_app_ready: "cycle_ready white_frame (\<lambda>s. 128) example_app"
  by (simp add: cycle_ready_def example_app_def good_white_frame createCanvas_def)

lemma white_drawn:
  "bitmap (draw_scaled hst (createCanvas CANVAS_WIDTH CANVAS_HEIGHT) white_frame) 0 0
     = RGBA 255 255 255 255"
  by (simp add: draw_scaled_def composite_def white_frame_def createCanvas_def inside_def
      in_rect_def source_over_def CANVAS_WIDTH_def CANVAS_HEIGHT_def)

lemma broken_run:
  "\<exists>s1. run_steps (take 1 (processImage_steps hst)) broken_app = (s1, None)
     \<and> (processImage_steps hst ! 1) s1
         = (set_canvas C_grayscale
              (draw_scaled hst (createCanvas CANVAS_WIDTH CANVAS_HEIGHT) white_frame) s1,
            Some (Error ''processImageData must be implemented by child classes''))
     \<and> dom_canvas s1 C_redChannel = createCanvas CANVAS_WIDTH CANVAS_HEIGHT
     \<and> console s1 = [] \<and> alerts s1 = []"
proof -
  have c: "cwidth (dom_canvas broken_app (canvas_of (WebcamRepeatFilter C_webcamRepeat)))
      = CANVAS_WIDTH"
    "cheight (dom_canvas broken_app (canvas_of (WebcamRepeatFilter C_webcamRepeat)))
      = CANVAS_HEIGHT"
    by (simp_all add: broken_app_def example_app_def createCanvas_def)
  have i: "implemented (WebcamRepeatFilter C_webcamRepeat)" by (simp add: implemented_def)
  obtain R where R: "ImageFilter_process hst (WebcamRepeatFilter C_webcamRepeat)
      (VideoSource (Some white_frame)) broken_app
      = (set_canvas C_webcamRepeat R broken_app, None)"
    using process_good[OF i c good_white_frame, of "VideoSource (Some white_frame)" hst]
    by auto
  let ?s1 = "set_canvas C_webcamRepeat R broken_app"
  have first: "run_steps (take 1 (processImage_steps hst)) broken_app = (?s1, None)"
    using R by (simp add: processImage_steps_def broken_app_def example_app_def
        initializeFilters_def)
  have s1: "filters ?s1 = initializeFilters\<lparr>grayscale := ImageFilter C_grayscale\<rparr>"
    "webcamVideo ?s1 = Some white_frame"
    "dom_canvas ?s1 C_grayscale = createCanvas CANVAS_WIDTH CANVAS_HEIGHT"
    "dom_canvas ?s1 C_redChannel = createCanvas CANVAS_WIDTH CANVAS_HEIGHT"
    "console ?s1 = []" "alerts ?s1 = []"
    by (simp_all add: set_canvas_def broken_app_def example_app_def)
  have "ImageFilter_process hst (ImageFilter C_grayscale) (VideoSource (Some white_frame)) ?s1
      = (set_canvas C_grayscale
           (draw_scaled hst (createCanvas CANVAS_WIDTH CANVAS_HEIGHT) white_frame) ?s1,
         Some (Error ''processImageData must be implemented by child classes''))"
    unfolding ImageFilter_process_def canvas_of.simps s1(3)
    by (simp add: drawImage_def getImageData_frame)
  then have second: "(processImage_steps hst ! 1) ?s1
      = (set_canvas C_grayscale
           (draw_scaled hst (createCanvas CANVAS_WIDTH CANVAS_HEIGHT) white_frame) ?s1,
         Some (Error ''processImageData must be implemented by child classes''))"
    by (simp add: processImage_steps_def s1(1,2))
  show ?thesis using first second s1(4,5,6) by blast
qed

lemma broken_result:
  "dom_canvas (processImage hst broken_app) C_redChannel = dom_canvas broken_app C_redChannel
   \<and> bitmap (dom_canvas (processImage hst broken_app) C_grayscale) 0 0 = RGBA 255 255 255 255
   \<and> console (processImage hst broken_app) = [''Error processing image:'']"
proof -
  obtain s1 where s1: "run_steps (take 1 (processImage_steps hst)) broken_app = (s1, None)"
    "(processImage_steps hst ! 1) s1
       = (set_canvas C_grayscale
            (draw_scaled hst (createCanvas CANVAS_WIDTH CANVAS_HEIGHT) white_frame) s1,
          Some (Error ''processImageData must be implemented by child classes''))"
    "dom_canvas s1 C_redChannel = createCanvas CANVAS_WIDTH CANVAS_HEIGHT"
    "console s1 = []"
    using broken_run[of hst] by blast
  have k: "1 < length (processImage_steps hst)" by (simp add: processImage_steps_def)
  have "run_steps (processImage_steps hst) broken_app
      = (set_canvas C_grayscale
           (draw_scaled hst (createCanvas CANVAS_WIDTH CANVAS_HEIGHT) white_frame) s1,
         Some (Error ''processImageData must be implemented by child classes''))"
    by (rule run_steps_abort_at[OF k s1(1,2)])
  then show ?thesis
    using s1(3,4) white_drawn[of hst]
    by (simp add: processImage_def set_canvas_def broken_app_def example_app_def)
qed

lemma process_console: "console (fst (ImageFilter_process hst f source st)) = console st"
  by (auto simp: ImageFilter_process_def set_canvas_def
      split: prod.splits option.splits sum.splits)

lemma face_console:
  "console (fst (FaceDetectionFilter_process hst f source st)) = console st"
  by (cases f) (auto simp: set_canvas_def split: prod.splits option.splits sum.splits)

lemma run_steps_console:
  assumes "\<forall>f \<in> set fs. \<forall>s. console (fst (f s)) = console s"
  shows "console (fst (run_steps fs st)) = console st"
  using assms
proof (induction fs arbitrary: st)
  case Nil
  then show ?case by simp
next
  case (Cons g fs)
  obtain s x where g: "g st = (s, x)" by (cases "g st")
  have s: "console s = console st" using Cons(2) g by (metis fst_conv list.set_intros(1))
  show ?case
  proof (cases x)
    case None
    then show ?thesis using Cons g s by simp
  next
    case (Some err)
    then show ?thesis using g s by simp
  qed
qed

lemma steps_console: "console (fst (run_steps (processImage_steps hst) st)) = console st"
  by (rule run_steps_console) (simp add: processImage_steps_def process_console face_console)

lemma frame_data_white: "frame_data white_frame ! 0 = RGBA 255 255 255 255"
proof -
  have "0 < length (frame_data white_frame)"
    by (simp add: length_frame_data CANVAS_WIDTH_def CANVAS_HEIGHT_def)
  then have "frame_data white_frame ! 0 \<in> set (frame_data white_frame)" by (rule nth_mem)
  then obtain i j where "i < CANVAS_WIDTH" "j < CANVAS_HEIGHT"
    "frame_data white_frame ! 0 = getPixel white_frame (int i) (int j)"
    by (auto simp: frame_data_def)
  then show ?thesis by (simp add: getPixel_def inside_def white_frame_def)
qed

lemma detection_failure_result:
  "getPixel (dom_canvas (processImage failing_host example_app) C_faceDetection) 0 0
     = RGBA 255 255 255 255
   \<and> console (processImage failing_host example_app) = [''Error processing image:'']"
proof -
  let ?sl = "\<lambda>s :: slider_id. (128 :: int)"
  let ?E = "out ?sl (webcamRepeat initializeFilters) white_frame"
  obtain s e where r: "run_steps (processImage_steps failing_host) example_app = (s, e)"
    by (cases "run_steps (processImage_steps failing_host) example_app")
  have d: "cycle_done failing_host white_frame ?sl s" "e = face_error failing_host white_frame ?sl"
    using cycle_result[OF example_app_ready, of failing_host] r by simp_all
  have e: "e = Some (Error ''load model before inference'')"
    unfolding d(2) by (simp add: face_error_def failing_host_def)
  have E: "?E = filter_output (frame_data white_frame)"
    by (simp add: out_def processed_def initializeFilters_def WebcamRepeatFilter_processImageData_def)
  have "visible (dom_canvas s C_faceDetection) = visible ?E"
    using d(1) by (simp add: cycle_done_def face_output_def failing_host_def)
  then have "getPixel (dom_canvas s C_faceDetection) 0 0 = getPixel ?E 0 0"
    by (simp only: visible_eq_iff)
  also have "\<dots> = frame_data white_frame ! 0"
    unfolding E
    by (simp add: getPixel_def inside_def filter_output_def CANVAS_WIDTH_def CANVAS_HEIGHT_def)
  finally have "getPixel (dom_canvas s C_faceDetection) 0 0 = RGBA 255 255 255 255"
    by (simp only: frame_data_white)
  moreover have "console s = []"
    using steps_console[of failing_host example_app] r by (simp add: example_app_def)
  ultimately show ?thesis by (simp add: processImage_def r e)
qed

text \<open>
  C9. A cycle is a function of the source frame and the threshold values: from any two
  states ready for the same frame and the same slider values, the cycle leaves the same
  size and the same pixels on every canvas; in particular a second cycle run right
  after the first changes no surface. The detector and the stroke of the host are
  functions of what the canvas shows.
\<close>

theorem processImage_deterministic:
  assumes "cycle_ready frame sl st" "cycle_ready frame sl st'"
  shows "(\<forall>cid. visible (dom_canvas (processImage hst st) cid)
            = visible (dom_canvas (processImage hst st') cid))
    \<and> (\<forall>cid. visible (dom_canvas (processImage hst (processImage hst st)) cid)
            = visible (dom_canvas (processImage hst st) cid))"
proof -
  have a: "cycle_done hst frame sl (processImage hst st)"
    and b: "cycle_done hst frame sl (processImage hst st')"
    by (rule processImage_done[OF assms(1)], rule processImage_done[OF assms(2)])
  have "cycle_ready frame sl (processImage hst st)"
    using a by (simp add: cycle_done_def)
  then have c: "cycle_done hst frame sl (processImage hst (processImage hst st))"
    by (rule processImage_done)
  show ?thesis using a b c by (simp add: cycle_done_def)
qed

theorem processImage_deterministic_witness:
  "visible (dom_canvas (processImage plain_host example_app) C_thresholdSpace1)
     = visible (dom_canvas (processImage plain_host
         (example_app\<lparr>dom_canvas := (\<lambda>cid. white_frame), console := [''earlier'']\<rparr>))
         C_thresholdSpace1)
   \<and> visible (dom_canvas (processImage plain_host (processImage plain_host example_app))
         C_thresholdSpace1)
     = visible (dom_canvas (processImage plain_host example_app) C_thresholdSpace1)"
proof -
  have "cycle_ready white_frame (\<lambda>s. 128)
      (example_app\<lparr>dom_canvas := (\<lambda>cid. white_frame), console := [''earlier'']\<rparr>)"
    by (simp add: cycle_ready_def example_app_def good_white_frame)
      (simp add: white_frame_def)
  then show ?thesis
    using processImage_deterministic [of white_frame "\<lambda>s. 128" example_app
        "example_app\<lparr>dom_canvas := (\<lambda>cid. white_frame), console := [''earlier'']\<rparr>" plain_host]
      example_app_ready
    by simp
qed

text \<open>
  C2 (as amended). When a step of the cycle raises, the state after the cycle is the
  state at the raise with the message on the console and the alert added: no later
  filter runs, and nothing leaves \<open>processImage\<close>. A filter that raises leaves on its
  canvas what \<open>drawImage\<close> put there, the new frame and no processed data, and no filter
  touches another filter's canvas.
\<close>

theorem processImage_failure:
  "(k < length (processImage_steps hst)
      \<and> run_steps (take k (processImage_steps hst)) st = (st1, None)
      \<and> (processImage_steps hst ! k) st1 = (st2, Some e)
     \<longrightarrow> processImage hst st =
           st2\<lparr>console := console st2 @ [''Error processing image:''],
               alerts := alerts st2 @ [''Error processing image. Please try again.'']\<rparr>)
   \<and> (ImageFilter_process hst f source s = (s', Some e')
     \<longrightarrow> s' = set_canvas (canvas_of f)
                 (fst (drawImage hst (dom_canvas s (canvas_of f)) source)) s)
   \<and> (FaceDetectionFilter_process hst (FaceDetectionFilter fid) source s = (s'', Some e'')
     \<longrightarrow> s'' = set_canvas fid (fst (drawImage hst (dom_canvas s fid) source)) s)
   \<and> (cid \<noteq> canvas_of f
     \<longrightarrow> dom_canvas (fst (ImageFilter_process hst f source s)) cid = dom_canvas s cid)"
proof -
  have "processImage hst st =
      st2\<lparr>console := console st2 @ [''Error processing image:''],
          alerts := alerts st2 @ [''Error processing image. Please try again.'']\<rparr>"
    if "k < length (processImage_steps hst)"
      "run_steps (take k (processImage_steps hst)) st = (st1, None)"
      "(processImage_steps hst ! k) st1 = (st2, Some e)"
    using run_steps_abort_at[OF that] by (simp add: processImage_def)
  then show ?thesis
    using process_raises[of hst f source s s' e'] face_raises[of hst fid source s s'' e'']
      process_other_canvas[of cid f hst source s]
    by blast
qed

theorem processImage_failure_witness:
  "processImage plain_host broken_app
     = (set_canvas C_grayscale
          (draw_scaled plain_host (createCanvas CANVAS_WIDTH CANVAS_HEIGHT) white_frame)
          (fst (run_steps (take 1 (processImage_steps plain_host)) broken_app)))
        \<lparr>console := [''Error processing image:''],
         alerts := [''Error processing image. Please try again.'']\<rparr>
   \<and> fst (ImageFilter_process plain_host (ImageFilter C_grayscale)
          (VideoSource (Some white_frame)) example_app)
       = set_canvas C_grayscale
           (draw_scaled plain_host (createCanvas CANVAS_WIDTH CANVAS_HEIGHT) white_frame)
           example_app
   \<and> fst (FaceDetectionFilter_process failing_host (FaceDetectionFilter C_faceDetection)
          (CanvasSource white_frame) example_app)
       = set_canvas C_faceDetection
           (draw_scaled failing_host (createCanvas CANVAS_WIDTH CANVAS_HEIGHT) white_frame)
           example_app
   \<and> dom_canvas (fst (ImageFilter_process plain_host (ImageFilter C_grayscale)
          (VideoSource (Some white_frame)) example_app)) C_redChannel
       = dom_canvas example_app C_redChannel"
proof -
  let ?msg = "Error ''processImageData must be implemented by child classes''"
  let ?drawn = "draw_scaled plain_host (createCanvas CANVAS_WIDTH CANVAS_HEIGHT) white_frame"
  obtain s1 where s1: "run_steps (take 1 (processImage_steps plain_host)) broken_app = (s1, None)"
    "(processImage_steps plain_host ! 1) s1 = (set_canvas C_grayscale ?drawn s1, Some ?msg)"
    "console s1 = []" and al: "alerts s1 = []"
    using broken_run[of plain_host] by blast
  have k: "1 < length (processImage_steps plain_host)" by (simp add: processImage_steps_def)
  have p: "ImageFilter_process plain_host (ImageFilter C_grayscale)
      (VideoSource (Some white_frame)) example_app
      = (set_canvas C_grayscale ?drawn example_app, Some ?msg)"
    by (simp add: ImageFilter_process_def drawImage_def getImageData_frame example_app_def
        set_canvas_def)
  have q: "FaceDetectionFilter_process failing_host (FaceDetectionFilter C_faceDetection)
      (CanvasSource white_frame) example_app
      = (set_canvas C_faceDetection
           (draw_scaled failing_host (createCanvas CANVAS_WIDTH CANVAS_HEIGHT) white_frame)
           example_app,
         Some (Error ''load model before inference''))"
    by (simp add: drawImage_def failing_host_def example_app_def set_canvas_def white_frame_def
        CANVAS_WIDTH_def CANVAS_HEIGHT_def)
  have n: "C_redChannel \<noteq> canvas_of (ImageFilter C_grayscale)" by simp
  show ?thesis
    using processImage_failure [of 1 plain_host broken_app s1 "set_canvas C_grayscale ?drawn s1"
        ?msg "ImageFilter C_grayscale" "VideoSource (Some white_frame)" example_app
        "set_canvas C_grayscale ?drawn example_app" ?msg C_faceDetection
        "set_canvas C_faceDetection
           (draw_scaled plain_host (createCanvas CANVAS_WIDTH CANVAS_HEIGHT) white_frame)
           example_app" ?msg C_redChannel]
      processImage_failure [of 1 failing_host broken_app s1 "set_canvas C_grayscale ?drawn s1"
        ?msg "ImageFilter C_grayscale" "CanvasSource white_frame" example_app
        "set_canvas C_grayscale ?drawn example_app" ?msg C_faceDetection
        "set_canvas C_faceDetection
           (draw_scaled failing_host (createCanvas CANVAS_WIDTH CANVAS_HEIGHT) white_frame)
           example_app" "Error ''load model before inference''" C_redChannel]
      s1 al k p q n
    by (simp add: set_canvas_def)
qed

lemma red_channel_result:
  "getPixel (dom_canvas (processImage hst example_app) C_redChannel) 0 0 = RGBA 255 0 0 255"
proof -
  let ?sl = "\<lambda>s :: slider_id. (128 :: int)"
  have d: "cycle_done hst white_frame ?sl (processImage hst example_app)"
    by (rule processImage_done[OF example_app_ready])
  have n: "0 < length (frame_data white_frame)"
    by (simp add: length_frame_data CANVAS_WIDTH_def CANVAS_HEIGHT_def)
  have E: "expected hst white_frame ?sl C_redChannel
      = filter_output (map (channel_pixel Red) (frame_data white_frame))"
    by (simp add: out_def processed_def initializeFilters_def ChannelFilter_processImageData_def)
  have "visible (dom_canvas (processImage hst example_app) C_redChannel)
      = expected hst white_frame ?sl C_redChannel"
    using d by (simp add: cycle_done_def)
  then have "visible (dom_canvas (processImage hst example_app) C_redChannel)
      = visible (filter_output (map (channel_pixel Red) (frame_data white_frame)))"
    by (simp only: E visible_filter_output)
  then have "getPixel (dom_canvas (processImage hst example_app) C_redChannel) 0 0
      = getPixel (filter_output (map (channel_pixel Red) (frame_data white_frame))) 0 0"
    by (simp only: visible_eq_iff)
  also have "\<dots> = map (channel_pixel Red) (frame_data white_frame) ! 0"
    by (simp add: getPixel_def inside_def filter_output_def CANVAS_WIDTH_def CANVAS_HEIGHT_def)
  also have "\<dots> = channel_pixel Red (frame_data white_frame ! 0)"
    using n by (rule nth_map)
  finally show ?thesis
    by (simp add: frame_data_white channel_pixel_def)
qed

text \<open>
  C2 as stated says that the filters after the failing one still run and that the
  failing filter's canvas keeps its previous contents. With the abstract filter in the
  place of the grayscale filter, the red channel canvas, next in the cycle, is left as
  it was (a cycle without the failure turns it red), and the grayscale canvas shows the
  white frame that was drawn before the exception. With the filters of \<open>initializeFilters\<close> and a detector that rejects, the
  face detection canvas, empty before, shows the new frame.
\<close>

theorem processImage_failure_counterexample:
  "dom_canvas (processImage plain_host broken_app) C_redChannel = dom_canvas broken_app C_redChannel
   \<and> getPixel (dom_canvas broken_app C_redChannel) 0 0 = RGBA 0 0 0 0
   \<and> getPixel (dom_canvas (processImage plain_host example_app) C_redChannel) 0 0
       = RGBA 255 0 0 255
   \<and> bitmap (dom_canvas broken_app C_grayscale) 0 0 = RGBA 0 0 0 0
   \<and> bitmap (dom_canvas (processImage plain_host broken_app) C_grayscale) 0 0
       = RGBA 255 255 255 255
   \<and> console (processImage plain_host broken_app) = [''Error processing image:'']
   \<and> getPixel (dom_canvas example_app C_faceDetection) 0 0 = RGBA 0 0 0 0
   \<and> getPixel (dom_canvas (processImage failing_host example_app) C_faceDetection) 0 0
       = RGBA 255 255 255 255
   \<and> console (processImage failing_host example_app) = [''Error processing image:'']"
  using broken_result[of plain_host] detection_failure_result red_channel_result[of plain_host]
  by (simp add: broken_app_def example_app_def createCanvas_def getPixel_def)

end
